theory Spec2Isabelle
  imports Main "HOL-Library.Multiset" "HOL-Library.Monad_Syntax"
begin

section \<open>Card model\<close>

text \<open>
  A card's \<open>suit\<close> string is one of the four entries of \<open>SUITS\<close> or one of the joker
  sentinels; its \<open>rank\<close> string is one of the thirteen entries of \<open>RANKS\<close> or, for the
  jokers built by \<open>make_double_deck\<close>, the joker sentinel again.  An exception raised by
  the source (a failed dictionary lookup, \<open>list.index\<close>, \<open>list.remove\<close>, an
  assertion) is the value \<open>None\<close> of the model.
\<close>

datatype suit = Clubs | Diamonds | Hearts | Spades | SmallJoker | BigJoker

datatype rank = R2 | R3 | R4 | R5 | R6 | R7 | R8 | R9 | R10 | RJ | RQ | RK | RA
  | RankSJ | RankBJ

record card =
  suit :: suit
  rank :: rank
  deck_id :: nat

definition SUITS :: "suit list" where
  "SUITS = [Clubs, Diamonds, Hearts, Spades]"

definition RANKS :: "rank list" where
  "RANKS = [R2, R3, R4, R5, R6, R7, R8, R9, R10, RJ, RQ, RK, RA]"

text \<open>\<open>xs.index(x)\<close>: the first position of \<open>x\<close>, raising when there is none.\<close>

fun index_of :: "'a \<Rightarrow> 'a list \<Rightarrow> nat option" where
  "index_of x [] = None"
| "index_of x (y # ys) = (if x = y then Some 0 else map_option Suc (index_of x ys))"

definition RANK_VAL :: "rank \<Rightarrow> int option" where
  "RANK_VAL r = map_option int (index_of r RANKS)"

definition is_joker :: "card \<Rightarrow> bool" where
  "is_joker c = (suit c = SmallJoker \<or> suit c = BigJoker)"

definition is_big_joker :: "card \<Rightarrow> bool" where
  "is_big_joker c = (suit c = BigJoker)"

definition is_small_joker :: "card \<Rightarrow> bool" where
  "is_small_joker c = (suit c = SmallJoker)"

definition point_value :: "card \<Rightarrow> int" where
  "point_value c = (if rank c = R5 then 5 else if rank c = R10 then 10
                    else if rank c = RK then 10 else 0)"

definition mk_card :: "suit \<Rightarrow> rank \<Rightarrow> nat \<Rightarrow> card" where
  "mk_card s r d = \<lparr>suit = s, rank = r, deck_id = d\<rparr>"

definition make_double_deck :: "card list" where
  "make_double_deck =
     concat (map (\<lambda>d. concat (map (\<lambda>s. map (\<lambda>r. mk_card s r d) RANKS) SUITS)
                       @ [mk_card SmallJoker RankSJ d, mk_card BigJoker RankBJ d])
                 [0, 1])"

text \<open>The cards that \<open>make_deck\<close> and \<open>make_double_deck\<close> can build, up to the copy id.\<close>

definition wf_card :: "card \<Rightarrow> bool" where
  "wf_card c = ((suit c \<in> set SUITS \<and> rank c \<in> set RANKS)
              \<or> (suit c = SmallJoker \<and> rank c = RankSJ)
              \<or> (suit c = BigJoker \<and> rank c = RankBJ))"

section \<open>Trump system\<close>

record trump_system =
  trump_suit :: suit
  trump_rank :: rank

datatype esuit = TRUMP | Plain suit

definition wf_trump :: "trump_system \<Rightarrow> bool" where
  "wf_trump ts = (trump_suit ts \<in> set SUITS \<and> trump_rank ts \<in> set RANKS)"

definition is_trump :: "trump_system \<Rightarrow> card \<Rightarrow> bool" where
  "is_trump ts c = (if is_joker c then True
                    else if rank c = trump_rank ts then True
                    else if suit c = trump_suit ts then True
                    else False)"

definition effective_suit :: "trump_system \<Rightarrow> card \<Rightarrow> esuit" where
  "effective_suit ts c = (if is_trump ts c then TRUMP else Plain (suit c))"

definition trump_order :: "trump_system \<Rightarrow> card \<Rightarrow> int option" where
  "trump_order ts c =
     (if is_big_joker c then Some 1000
      else if is_small_joker c then Some 999
      else if suit c = trump_suit ts \<and> rank c = trump_rank ts then Some 998
      else if rank c = trump_rank ts then
        map_option (\<lambda>i. 500 + int i)
          (index_of (suit c) (filter (\<lambda>s. s \<noteq> trump_suit ts) SUITS))
      else if suit c = trump_suit ts then RANK_VAL (rank c)
      else None)"

definition card_order :: "trump_system \<Rightarrow> card \<Rightarrow> int option" where
  "card_order ts c =
     (if is_trump ts c then map_option (\<lambda>v. 2000 + v) (trump_order ts c)
      else do {
        i \<leftarrow> index_of (suit c) SUITS;
        v \<leftarrow> RANK_VAL (rank c);
        Some (int i * 100 + v)
      })"

definition beats :: "trump_system \<Rightarrow> card \<Rightarrow> card \<Rightarrow> esuit \<Rightarrow> bool option" where
  "beats ts challenger incumbent led_suit =
     (let c_trump = is_trump ts challenger;
          i_trump = is_trump ts incumbent;
          c_suit = effective_suit ts challenger;
          i_suit = effective_suit ts incumbent
      in if c_suit = i_suit then
           (if c_trump \<and> i_trump then do {
              a \<leftarrow> trump_order ts challenger;
              b \<leftarrow> trump_order ts incumbent;
              Some (a > b)
            } else do {
              a \<leftarrow> RANK_VAL (rank challenger);
              b \<leftarrow> RANK_VAL (rank incumbent);
              Some (a > b)
            })
         else if c_trump \<and> \<not> i_trump then Some True
         else if c_suit = led_suit \<and> i_suit \<noteq> led_suit \<and> i_suit \<noteq> TRUMP then Some True
         else Some False)"

text \<open>The order value used everywhere cards are grouped: \<open>order_of\<close> in the source.\<close>

definition order_of :: "trump_system \<Rightarrow> card \<Rightarrow> int option" where
  "order_of ts c = (if is_trump ts c then trump_order ts c else RANK_VAL (rank c))"

section \<open>Card combinations\<close>

datatype combo_type = SINGLE | PAIR | TRACTOR | MULTI

record card_combo =
  cards :: "card list"
  combo_trump :: trump_system
  ctype :: combo_type
  components :: "card list list"

text \<open>
  A Python \<open>dict\<close> filled with \<open>setdefault(k, []).append(v)\<close> and read back with
  \<open>items()\<close>: an association list in order of first insertion of each key.
\<close>

fun setdefault_append :: "'k \<Rightarrow> 'v \<Rightarrow> ('k \<times> 'v list) list \<Rightarrow> ('k \<times> 'v list) list" where
  "setdefault_append k v [] = [(k, [v])]"
| "setdefault_append k v ((k', vs) # rest) =
     (if k = k' then (k', vs @ [v]) # rest else (k', vs) # setdefault_append k v rest)"

definition group_kv :: "('k \<times> 'v) list \<Rightarrow> ('k \<times> 'v list) list" where
  "group_kv kvs = foldl (\<lambda>g (k, v). setdefault_append k v g) [] kvs"

text \<open>All order values of a list of cards; the first failing lookup fails the whole loop.\<close>

fun orders_of :: "trump_system \<Rightarrow> card list \<Rightarrow> int list option" where
  "orders_of ts [] = Some []"
| "orders_of ts (c # cs) = do {
     v \<leftarrow> order_of ts c;
     vs \<leftarrow> orders_of ts cs;
     Some (v # vs)
   }"

definition group_by_order :: "trump_system \<Rightarrow> card list \<Rightarrow> (int \<times> card list) list option" where
  "group_by_order ts cs = map_option (\<lambda>vs. group_kv (zip vs cs)) (orders_of ts cs)"

text \<open>\<open>for i in range(len(orders)-1): if orders[i+1] - orders[i] != 1: return False\<close>\<close>

fun all_consecutive :: "int list \<Rightarrow> bool" where
  "all_consecutive [] = True"
| "all_consecutive [x] = True"
| "all_consecutive (x # y # xs) = (if y - x \<noteq> 1 then False else all_consecutive (y # xs))"

definition try_tractor :: "trump_system \<Rightarrow> card list \<Rightarrow> bool option" where
  "try_tractor ts cs =
     (if length cs < 4 \<or> length cs mod 2 \<noteq> 0 then Some False
      else do {
        groups \<leftarrow> group_by_order ts cs;
        if list_ex (\<lambda>(k, v). length v \<noteq> 2) groups then Some False
        else Some (all_consecutive (sort (map fst groups)))
      })"

text \<open>
  The scan \<open>while i < len(l): j = i + 1; while j < len(l) and l[j] - l[j-1] == 1: j += 1;
  ...; i = j\<close> cuts a list into its maximal stretches of entries whose order values rise
  by exactly one; \<open>runs\<close> returns these stretches \<open>l[i:j]\<close> in the order the scan meets
  them.
\<close>

fun runs :: "('a \<Rightarrow> int) \<Rightarrow> 'a list \<Rightarrow> 'a list list" where
  "runs f [] = []"
| "runs f [x] = [[x]]"
| "runs f (x # y # xs) =
     (if f y - f x = 1 then
        (case runs f (y # xs) of [] \<Rightarrow> [[x]] | r # rs \<Rightarrow> (x # r) # rs)
      else [x] # runs f (y # xs))"

text \<open>
  \<open>_decompose\<close>.  The source marks consumed cards by \<open>id(c)\<close>, the identity of the card
  object, and never compares cards by value.  The model therefore runs the algorithm on the
  positions \<open>0 ..< len(cards)\<close> of the input list, a position standing for the card object
  stored there (a list of cards holds each card object once), and reads the cards back
  from the positions at the end.  \<open>used\<close> is the list of the positions consumed so far.
\<close>

definition tractor_runs :: "(int \<times> 'a list) list \<Rightarrow> 'a list list" where
  "tractor_runs pair_list =
     map (\<lambda>r. concat (map snd r)) (filter (\<lambda>r. 2 \<le> length r) (runs fst (sort_key fst pair_list)))"

definition pair_step :: "'a list list \<times> 'a list \<Rightarrow> 'k \<times> 'a list \<Rightarrow> 'a list list \<times> 'a list" where
  "pair_step st g =
     (if 2 \<le> length (snd g) then
        (let pair = filter (\<lambda>c. c \<notin> set (snd st)) (take 2 (snd g))
         in if length pair = 2 then (fst st @ [pair], snd st @ pair) else st)
      else st)"

definition single_step :: "'a list list \<times> 'a list \<Rightarrow> 'a \<Rightarrow> 'a list list \<times> 'a list" where
  "single_step st c = (if c \<notin> set (snd st) then (fst st @ [[c]], snd st @ [c]) else st)"

definition decompose_items :: "('a \<Rightarrow> esuit \<times> int) \<Rightarrow> 'a list \<Rightarrow> 'a list list" where
  "decompose_items key items =
     (let groups = group_kv (map (\<lambda>x. (key x, x)) items);
          pairs_by_suit = group_kv (concat (map (\<lambda>(k, cs).
              if 2 \<le> length cs then [(fst k, (snd k, take 2 cs))] else []) groups));
          tractors = concat (map (\<lambda>(s, pair_list). tractor_runs pair_list) pairs_by_suit);
          st1 = (tractors, concat tractors);
          st2 = foldl pair_step st1 groups;
          st3 = foldl single_step st2 (concat (map snd groups))
      in fst st3)"

definition decompose :: "trump_system \<Rightarrow> card list \<Rightarrow> card list list option" where
  "decompose ts cs = do {
     vs \<leftarrow> orders_of ts cs;
     let keys = zip (map (effective_suit ts) cs) vs;
     let comps = map (map (\<lambda>i. cs ! i)) (decompose_items (\<lambda>i. keys ! i) [0 ..< length cs]);
     Some (if comps = [] then [cs] else comps)
   }"

definition pair_test :: "trump_system \<Rightarrow> card \<Rightarrow> card \<Rightarrow> bool option" where
  "pair_test ts c0 c1 =
     (if rank c0 = rank c1 then Some True
      else if is_trump ts c0 \<and> is_trump ts c1 then do {
        a \<leftarrow> trump_order ts c0;
        b \<leftarrow> trump_order ts c1;
        Some (a = b)
      } else Some False)"

definition detect_multi :: "trump_system \<Rightarrow> card list \<Rightarrow> (combo_type \<times> card list list) option" where
  "detect_multi ts cs = do {
     comps \<leftarrow> decompose ts cs;
     Some (if length comps = 1 \<and> length (comps ! 0) = length cs then
             (if length cs = 2 then (PAIR, comps) else (TRACTOR, comps))
           else (MULTI, comps))
   }"

definition detect :: "trump_system \<Rightarrow> card list \<Rightarrow> (combo_type \<times> card list list) option" where
  "detect ts cs =
     (if length cs = 1 then Some (SINGLE, [cs])
      else if length (remdups (map (effective_suit ts) cs)) = 1 then do {
        p \<leftarrow> (case cs of [c0, c1] \<Rightarrow> pair_test ts c0 c1 | _ \<Rightarrow> Some False);
        if p then Some (PAIR, [cs])
        else do {
          t \<leftarrow> try_tractor ts cs;
          if t then Some (TRACTOR, [cs]) else detect_multi ts cs
        }
      }
      else detect_multi ts cs)"

text \<open>The constructor \<open>CardCombo(cards, trump)\<close>.\<close>

definition CardCombo :: "card list \<Rightarrow> trump_system \<Rightarrow> card_combo option" where
  "CardCombo cs ts = map_option
     (\<lambda>(t, comps). \<lparr>cards = cs, combo_trump = ts, ctype = t, components = comps\<rparr>)
     (detect ts cs)"

text \<open>\<open>max(cards, key=card_order)\<close>: the first card of greatest key; raises on no cards.\<close>

fun card_orders :: "trump_system \<Rightarrow> card list \<Rightarrow> int list option" where
  "card_orders ts [] = Some []"
| "card_orders ts (c # cs) = do {
     v \<leftarrow> card_order ts c;
     vs \<leftarrow> card_orders ts cs;
     Some (v # vs)
   }"

definition top_card :: "trump_system \<Rightarrow> card list \<Rightarrow> card option" where
  "top_card ts cs = do {
     ks \<leftarrow> card_orders ts cs;
     (case zip ks cs of
        [] \<Rightarrow> None
      | x # xs \<Rightarrow> Some (snd (foldl (\<lambda>best y. if fst y > fst best then y else best) x xs)))
   }"

definition combo_effective_suit :: "card_combo \<Rightarrow> esuit option" where
  "combo_effective_suit cmb =
     (case cards cmb of [] \<Rightarrow> None | c # _ \<Rightarrow> Some (effective_suit (combo_trump cmb) c))"

definition is_valid_lead :: "card list \<Rightarrow> trump_system \<Rightarrow> bool" where
  "is_valid_lead cs ts =
     (if cs = [] then False
      else if length (remdups (map (effective_suit ts) cs)) > 1 then False
      else True)"

section \<open>Following a lead\<close>

text \<open>
  The dictionary returned by \<open>required_follow_structure\<close>.  The three raw entries are
  absent from the dictionary returned for a hand that is void in the led suit.
\<close>

record follow_req =
  req_tractors :: int
  req_pair_cards :: int
  req_singles :: int
  req_total :: int
  raw_avail_tractor_pairs :: "int option"
  raw_avail_free_pairs :: "int option"
  raw_hand_in_suit :: "card list option"

text \<open>
  From the sorted order values that hold a pair: the number of pairs standing in a run of
  at least two consecutive values, and the values of those runs (\<open>used_in_tractor\<close>).
\<close>

definition tractor_pair_stats :: "int list \<Rightarrow> int \<times> int list" where
  "tractor_pair_stats pair_orders =
     (let rs = filter (\<lambda>r. 2 \<le> length r) (runs (\<lambda>v. v) pair_orders)
      in (int (length (concat rs)), concat rs))"

definition pair_orders_of :: "(int \<times> card list) list \<Rightarrow> int list" where
  "pair_orders_of groups = sort (map fst (filter (\<lambda>(v, cs). 2 \<le> length cs) groups))"

text \<open>The lead's demand \<open>(demand_tractor_pairs, demand_pairs, demand_singles)\<close>.\<close>

fun lead_demand :: "card list list \<Rightarrow> int \<times> int \<times> int" where
  "lead_demand [] = (0, 0, 0)"
| "lead_demand (component # rest) =
     (case lead_demand rest of (t, p, s) \<Rightarrow>
        if 4 \<le> length component then (t + int (length component div 2), p, s)
        else if length component = 2 then (t, p + 1, s)
        else (t, p, s + 1))"

definition required_follow_structure ::
    "card_combo \<Rightarrow> card list \<Rightarrow> trump_system \<Rightarrow> follow_req option" where
  "required_follow_structure led hand ts = do {
     led_suit \<leftarrow> combo_effective_suit led;
     let n_lead = int (length (cards led));
     let hand_in_suit = filter (\<lambda>c. effective_suit ts c = led_suit) hand;
     let n_in_suit = int (length hand_in_suit);
     if n_in_suit = 0 then
       Some \<lparr>req_tractors = 0, req_pair_cards = 0, req_singles = 0, req_total = 0,
             raw_avail_tractor_pairs = None, raw_avail_free_pairs = None,
             raw_hand_in_suit = None\<rparr>
     else do {
       suit_groups \<leftarrow> group_by_order ts hand_in_suit;
       let pair_orders = pair_orders_of suit_groups;
       let (tractor_pair_count, used_in_tractor) = tractor_pair_stats pair_orders;
       let free_pair_count = int (length (filter (\<lambda>v. v \<notin> set used_in_tractor) pair_orders));
       let lead_components = sort_key (\<lambda>c. - int (length c)) (components led);
       let (demand_tractor_pairs, demand_pairs0, demand_singles0) = lead_demand lead_components;
       let supplied_tractor_pairs = min tractor_pair_count demand_tractor_pairs;
       let remaining_tractor_demand = demand_tractor_pairs - supplied_tractor_pairs;
       let demand_pairs = demand_pairs0 + remaining_tractor_demand;
       let supplied_pairs = min free_pair_count demand_pairs;
       let remaining_pair_demand = demand_pairs - supplied_pairs;
       let demand_singles = demand_singles0 + remaining_pair_demand * 2;
       let committed = supplied_tractor_pairs * 2 + supplied_pairs * 2;
       let remaining_suit_cards = n_in_suit - committed;
       let supplied_singles = min remaining_suit_cards demand_singles;
       let total = min (min (committed + supplied_singles) n_in_suit) n_lead;
       Some \<lparr>req_tractors = supplied_tractor_pairs * 2,
             req_pair_cards = supplied_pairs * 2,
             req_singles = supplied_singles,
             req_total = total,
             raw_avail_tractor_pairs = Some tractor_pair_count,
             raw_avail_free_pairs = Some free_pair_count,
             raw_hand_in_suit = Some hand_in_suit\<rparr>
     }
   }"

text \<open>The verdict of \<open>is_valid_follow\<close>; the reason carries the numbers of the message.\<close>

datatype follow_msg =
    Follow_ok
  | Must_play_exactly nat
  | Must_play_led_suit int esuit nat
  | Must_play_tractor_pairs int esuit
  | Must_play_pairs int esuit

definition is_valid_follow ::
    "card list \<Rightarrow> card_combo \<Rightarrow> card list \<Rightarrow> trump_system \<Rightarrow> (bool \<times> follow_msg) option" where
  "is_valid_follow cs led hand ts =
     (let n_needed = length (cards led) in
      if length cs \<noteq> n_needed then Some (False, Must_play_exactly n_needed)
      else do {
        led_suit \<leftarrow> combo_effective_suit led;
        let play_in_suit = filter (\<lambda>c. effective_suit ts c = led_suit) cs;
        req \<leftarrow> required_follow_structure led hand ts;
        if int (length play_in_suit) < req_total req then
          Some (False, Must_play_led_suit (req_total req) led_suit (length play_in_suit))
        else if int (length play_in_suit) \<ge> req_total req \<and> req_total req > 0 then do {
          play_suit_groups \<leftarrow> group_by_order ts play_in_suit;
          let played_pair_orders = pair_orders_of play_suit_groups;
          let (played_tractor_pairs, played_used_in_tractor) = tractor_pair_stats played_pair_orders;
          let played_free_pairs =
                int (length (filter (\<lambda>v. v \<notin> set played_used_in_tractor) played_pair_orders));
          avail_tp \<leftarrow> raw_avail_tractor_pairs req;
          avail_fp \<leftarrow> raw_avail_free_pairs req;
          let required_tp = req_tractors req div 2;
          if played_tractor_pairs < required_tp then
            Some (False, Must_play_tractor_pairs required_tp led_suit)
          else (let required_fp = req_pair_cards req div 2 in
            if played_free_pairs < required_fp then
              Some (False, Must_play_pairs required_fp led_suit)
            else Some (True, Follow_ok))
        }
        else Some (True, Follow_ok)
      })"

text \<open>A Python slice \<open>xs[:k]\<close> with an integer bound.\<close>

definition py_take :: "int \<Rightarrow> 'a list \<Rightarrow> 'a list" where
  "py_take k xs = (if 0 \<le> k then take (nat k) xs else take (length xs - nat (- k)) xs)"

text \<open>
  \<open>take_cards\<close> of \<open>build_valid_follow\<close>, on the pair \<open>(chosen, remaining)\<close>;
  \<open>remaining.remove(c)\<close> raises when \<open>c\<close> is not there.
\<close>

fun take_cards :: "card list \<Rightarrow> card list \<times> card list \<Rightarrow> (card list \<times> card list) option" where
  "take_cards [] st = Some st"
| "take_cards (c # cs) st =
     (if c \<in> set (snd st) then take_cards cs (fst st @ [c], remove1 c (snd st)) else None)"

fun take_orders ::
    "(int \<times> card list) list \<Rightarrow> int list \<Rightarrow> card list \<times> card list \<Rightarrow> (card list \<times> card list) option" where
  "take_orders g [] st = Some st"
| "take_orders g (v # vs) st = do {
     cs \<leftarrow> map_of g v;
     st' \<leftarrow> take_cards (take 2 cs) st;
     take_orders g vs st'
   }"

fun take_tractor_runs ::
    "(int \<times> card list) list \<Rightarrow> int \<Rightarrow> int list list \<Rightarrow> int \<Rightarrow> card list \<times> card list
      \<Rightarrow> (card list \<times> card list) option" where
  "take_tractor_runs g need [] taken st = Some st"
| "take_tractor_runs g need (r # rs) taken st =
     (if taken < need then
        (if 2 \<le> length r then do {
           let pairs_to_take = min (int (length r)) (need - taken);
           st' \<leftarrow> take_orders g (py_take pairs_to_take r) st;
           take_tractor_runs g need rs (taken + pairs_to_take) st'
         } else take_tractor_runs g need rs taken st)
      else Some st)"

definition build_valid_follow ::
    "card_combo \<Rightarrow> card list \<Rightarrow> trump_system \<Rightarrow> card list option" where
  "build_valid_follow led hand ts = do {
     let n_needed = length (cards led);
     led_suit \<leftarrow> combo_effective_suit led;
     let hand_in_suit = filter (\<lambda>c. effective_suit ts c = led_suit) hand;
     req \<leftarrow> required_follow_structure led hand ts;
     let st0 = ([], hand_in_suit);
     let need_tractor_pairs = req_tractors req div 2;
     st1 \<leftarrow> (if need_tractor_pairs > 0 then do {
               g \<leftarrow> group_by_order ts (snd st0);
               take_tractor_runs g need_tractor_pairs (runs (\<lambda>v. v) (pair_orders_of g)) 0 st0
             } else Some st0);
     let need_free_pairs = req_pair_cards req div 2;
     st2 \<leftarrow> (if need_free_pairs > 0 then do {
               g \<leftarrow> group_by_order ts (snd st1);
               take_orders g (py_take need_free_pairs (rev (pair_orders_of g))) st1
             } else Some st1);
     let need_singles = req_singles req;
     st3 \<leftarrow> (if need_singles > 0 then do {
               ks \<leftarrow> orders_of ts (snd st2);
               take_cards (py_take need_singles (map snd (sort_key fst (zip ks (snd st2))))) st2
             } else Some st2);
     let chosen = fst st3;
     let still_need = int n_needed - int (length chosen);
     chosen' \<leftarrow> (if still_need > 0 then do {
               let off_suit = filter (\<lambda>c. c \<notin> set chosen \<and> c \<notin> set hand_in_suit) hand;
               ks \<leftarrow> card_orders ts off_suit;
               Some (chosen @ py_take still_need (map snd (sort_key fst (zip ks off_suit))))
             } else Some chosen);
     Some (take n_needed chosen')
   }"

section \<open>Tricks\<close>

record trick =
  trick_trump :: trump_system
  leader :: nat
  plays :: "(nat \<times> card list) list"
  led_combo :: "card_combo option"

definition new_trick :: "trump_system \<Rightarrow> nat \<Rightarrow> trick" where
  "new_trick ts l = \<lparr>trick_trump = ts, leader = l, plays = [], led_combo = None\<rparr>"

definition trick_play :: "trick \<Rightarrow> nat \<Rightarrow> card list \<Rightarrow> trick option" where
  "trick_play t player_idx cs = do {
     combo \<leftarrow> CardCombo cs (trick_trump t);
     Some (t\<lparr>led_combo := (if plays t = [] then Some combo else led_combo t),
             plays := plays t @ [(player_idx, cs)]\<rparr>)
   }"

definition is_complete :: "trick \<Rightarrow> bool" where
  "is_complete t = (length (plays t) = 4)"

text \<open>
  \<open>_match_components\<close>: for each template size, the \<open>size\<close> first cards of the remaining
  ones sorted by descending \<open>card_order\<close> (Python's sort is stable, also with
  \<open>reverse=True\<close>), which are then removed from the remaining ones.
\<close>

fun match_components :: "trump_system \<Rightarrow> card list \<Rightarrow> nat list \<Rightarrow> card list list option" where
  "match_components ts remaining [] = Some []"
| "match_components ts remaining (sz # sizes) = do {
     ks \<leftarrow> card_orders ts remaining;
     let chunk = take sz (map snd (sort_key (\<lambda>kc. - fst kc) (zip ks remaining)));
     rest \<leftarrow> match_components ts (foldl (\<lambda>r c. remove1 c r) remaining chunk) sizes;
     Some (chunk # rest)
   }"

definition component_beats ::
    "trump_system \<Rightarrow> card list \<Rightarrow> card list \<Rightarrow> card list \<Rightarrow> esuit \<Rightarrow> bool option" where
  "component_beats ts challenger incumbent led led_suit = do {
     inc_combo \<leftarrow> CardCombo incumbent ts;
     chal_combo \<leftarrow> CardCombo challenger ts;
     let chal_suit = (case challenger of [] \<Rightarrow> None | c # _ \<Rightarrow> Some (effective_suit ts c));
     if chal_suit \<noteq> Some led_suit \<and> chal_suit \<noteq> Some TRUMP then Some False
     else if length led = 1 then
       (case challenger of [] \<Rightarrow> None | c # _ \<Rightarrow>
          (case incumbent of [] \<Rightarrow> None | i # _ \<Rightarrow> beats ts c i led_suit))
     else if length led = 2 then
       (if ctype chal_combo \<noteq> PAIR then Some False
        else if ctype inc_combo \<noteq> PAIR then Some True
        else do {
          ct \<leftarrow> top_card ts (cards chal_combo);
          it \<leftarrow> top_card ts (cards inc_combo);
          beats ts ct it led_suit
        })
     else
       (if ctype chal_combo \<noteq> TRACTOR then Some False
        else if ctype inc_combo \<noteq> TRACTOR then Some True
        else do {
          ct \<leftarrow> top_card ts (cards chal_combo);
          it \<leftarrow> top_card ts (cards inc_combo);
          beats ts ct it led_suit
        })
   }"

text \<open>The loop of \<open>_play_beats\<close> over \<open>zip(c_comps, i_comps, led_components)\<close>.\<close>

fun all_slots_beat ::
    "trump_system \<Rightarrow> esuit \<Rightarrow> (card list \<times> card list \<times> card list) list \<Rightarrow> bool option" where
  "all_slots_beat ts led_suit [] = Some True"
| "all_slots_beat ts led_suit ((c_comp, i_comp, led_comp) # rest) = do {
     b \<leftarrow> component_beats ts c_comp i_comp led_comp led_suit;
     if \<not> b then Some False else all_slots_beat ts led_suit rest
   }"

definition play_beats ::
    "trump_system \<Rightarrow> card list \<Rightarrow> card list \<Rightarrow> card list list \<Rightarrow> esuit \<Rightarrow> bool option" where
  "play_beats ts challenger_cards incumbent_cards led_components led_suit =
     (let c_suits = set (map (effective_suit ts) challenger_cards) in
      if led_suit \<notin> c_suits \<and> TRUMP \<notin> c_suits then Some False
      else do {
        c_comps \<leftarrow> match_components ts challenger_cards (map length led_components);
        i_comps \<leftarrow> match_components ts incumbent_cards (map length led_components);
        all_slots_beat ts led_suit (zip c_comps (zip i_comps led_components))
      })"

text \<open>The loop of \<open>winner\<close> over \<open>plays[1:]\<close>, on the pair \<open>(best_player, best_cards)\<close>.\<close>

fun winner_loop ::
    "trump_system \<Rightarrow> card list list \<Rightarrow> esuit \<Rightarrow> nat \<times> card list \<Rightarrow> (nat \<times> card list) list
      \<Rightarrow> (nat \<times> card list) option" where
  "winner_loop ts led_comps led_suit best [] = Some best"
| "winner_loop ts led_comps led_suit best ((player_idx, cs) # rest) = do {
     b \<leftarrow> play_beats ts cs (snd best) led_comps led_suit;
     winner_loop ts led_comps led_suit (if b then (player_idx, cs) else best) rest
   }"

definition winner_play :: "trick \<Rightarrow> (nat \<times> card list) option" where
  "winner_play t =
     (if \<not> is_complete t then None
      else do {
        led \<leftarrow> led_combo t;
        led_suit \<leftarrow> combo_effective_suit led;
        (case plays t of
           [] \<Rightarrow> None
         | first # later \<Rightarrow> winner_loop (trick_trump t) (components led) led_suit first later)
      })"

definition winner :: "trick \<Rightarrow> nat option" where
  "winner t = map_option fst (winner_play t)"

definition points :: "trick \<Rightarrow> int" where
  "points t = sum_list (map point_value (concat (map snd (plays t))))"

section \<open>Game state\<close>

datatype game_phase = DEALING | KITTY | PLAYING | SCORING

definition bid_strength :: "card list \<Rightarrow> rank \<Rightarrow> int" where
  "bid_strength cs tr =
     (case cs of
        [] \<Rightarrow> 0
      | [c] \<Rightarrow> (if is_big_joker c then 5
                else if is_small_joker c then 3
                else if rank c = tr then 1
                else 0)
      | [c0, c1] \<Rightarrow> (if is_big_joker c0 \<and> is_big_joker c1 then 6
                     else if is_small_joker c0 \<and> is_small_joker c1 then 4
                     else if rank c0 = tr \<and> rank c1 = tr \<and> suit c0 = suit c1 then 2
                     else 0)
      | _ \<Rightarrow> 0)"

record game_state =
  num_players :: nat
  gs_trump_rank :: rank
  current_declaration :: "(nat \<times> card list) option"
  declaration_strength :: int
  declaring_player :: nat
  declaring_team :: int
  gs_trump_suit :: suit
  gs_trump :: trump_system
  team_levels :: "rank list"
  hands :: "card list list"
  kitty :: "card list"
  phase :: game_phase
  current_player :: nat
  tricks :: "trick list"
  current_trick :: "trick option"
  scores :: "int list"
  trick_winner_log :: "(nat \<times> nat) list"
  deck :: "card list"
  deal_idx :: nat
  cards_per_player :: nat
  kitty_start :: nat

definition KITTY_SIZE :: nat where
  "KITTY_SIZE = 8"

text \<open>
  \<open>GameState(num_players, trump_rank, declaring_team)\<close>; the shuffled double deck that
  \<open>_prepare_deck\<close> draws is the parameter \<open>dk\<close>, a list of 108 cards in the source.
  The integer division by \<open>num_players\<close> raises for zero players.
\<close>

definition init_game :: "card list \<Rightarrow> nat \<Rightarrow> rank \<Rightarrow> nat \<Rightarrow> game_state option" where
  "init_game dk n tr team =
     (if n = 0 then None
      else Some \<lparr>num_players = n, gs_trump_rank = tr, current_declaration = None,
                 declaration_strength = 0, declaring_player = team * 2,
                 declaring_team = int team, gs_trump_suit = Spades,
                 gs_trump = \<lparr>trump_suit = Spades, trump_rank = tr\<rparr>,
                 team_levels = [R2, R2], hands = replicate n [], kitty = [],
                 phase = DEALING, current_player = 0, tricks = [], current_trick = None,
                 scores = [0, 0], trick_winner_log = [], deck = dk, deal_idx = 0,
                 cards_per_player = (length dk - KITTY_SIZE) div n,
                 kitty_start = ((length dk - KITTY_SIZE) div n) * n\<rparr>)"

definition sort_hand :: "trump_system \<Rightarrow> card list \<Rightarrow> card list option" where
  "sort_hand ts hand = do {
     ks \<leftarrow> card_orders ts hand;
     Some (map snd (sort_key (\<lambda>kc. - fst kc) (zip ks hand)))
   }"

fun sort_hands :: "trump_system \<Rightarrow> card list list \<Rightarrow> card list list option" where
  "sort_hands ts [] = Some []"
| "sort_hands ts (h # hs) = do {
     h' \<leftarrow> sort_hand ts h;
     hs' \<leftarrow> sort_hands ts hs;
     Some (h' # hs')
   }"

text \<open>The two branches of \<open>_finalize_declaration\<close> that fix declarer and trump suit.\<close>

definition resolve_declaration :: "game_state \<Rightarrow> game_state" where
  "resolve_declaration s =
     (case current_declaration s of
        None \<Rightarrow> s\<lparr>declaring_player := 0, declaring_team := 0, gs_trump_suit := Spades\<rparr>
      | Some (player, cs) \<Rightarrow>
          (let s' = s\<lparr>declaring_player := player, declaring_team := int (player mod 2)\<rparr>
           in case filter (\<lambda>c. \<not> is_joker c) cs of
                [] \<Rightarrow> s'
              | c # _ \<Rightarrow> s'\<lparr>gs_trump_suit := suit c\<rparr>))"

definition finalize_declaration :: "game_state \<Rightarrow> game_state option" where
  "finalize_declaration s =
     (let s1 = resolve_declaration s;
          ts = \<lparr>trump_suit = gs_trump_suit s1, trump_rank = gs_trump_rank s1\<rparr>
      in if length (hands s1) < num_players s1 then None
         else do {
           sorted \<leftarrow> sort_hands ts (take (num_players s1) (hands s1));
           Some (s1\<lparr>gs_trump := ts, hands := sorted @ drop (num_players s1) (hands s1)\<rparr>)
         })"

definition deal_next_card :: "game_state \<Rightarrow> (game_state \<times> (nat \<times> card) option) option" where
  "deal_next_card s =
     (if deal_idx s \<ge> kitty_start s then Some (s, None)
      else if num_players s = 0 then None
      else (let player_idx = deal_idx s mod num_players s in
        if deal_idx s \<ge> length (deck s) \<or> player_idx \<ge> length (hands s) then None
        else (let c = deck s ! deal_idx s;
                  s1 = s\<lparr>hands := (hands s)[player_idx := hands s ! player_idx @ [c]],
                         deal_idx := deal_idx s + 1\<rparr>
              in if deal_idx s1 \<ge> kitty_start s1 then do {
                   s2 \<leftarrow> finalize_declaration (s1\<lparr>kitty := drop (kitty_start s1) (deck s1)\<rparr>);
                   Some (s2\<lparr>phase := KITTY\<rparr>, Some (player_idx, c))
                 }
                 else Some (s1, Some (player_idx, c)))))"

datatype declare_msg =
    Only_during_dealing
  | Not_your_cards
  | Not_a_bid
  | Bid_too_weak int int
  | Declaration_accepted

text \<open>
  \<open>for c in cards: if c not in self.hands[player_idx]: return False, ...\<close>: \<open>None\<close> for
  the index error, else whether every card passed.
\<close>

definition all_in_hand :: "card list list \<Rightarrow> nat \<Rightarrow> card list \<Rightarrow> bool option" where
  "all_in_hand hs player_idx cs =
     (if cs = [] then Some True
      else if player_idx \<ge> length hs then None
      else Some (list_all (\<lambda>c. c \<in> set (hs ! player_idx)) cs))"

definition declare_trump ::
    "game_state \<Rightarrow> nat \<Rightarrow> card list \<Rightarrow> (game_state \<times> bool \<times> declare_msg) option" where
  "declare_trump s player_idx cs =
     (if phase s \<noteq> DEALING then Some (s, False, Only_during_dealing)
      else do {
        ok \<leftarrow> all_in_hand (hands s) player_idx cs;
        if \<not> ok then Some (s, False, Not_your_cards)
        else (let strength = bid_strength cs (gs_trump_rank s) in
          if strength = 0 then Some (s, False, Not_a_bid)
          else if strength \<le> declaration_strength s then
            Some (s, False, Bid_too_weak strength (declaration_strength s))
          else (let s1 = s\<lparr>current_declaration := Some (player_idx, cs),
                            declaration_strength := strength\<rparr>;
                    s2 = (case filter (\<lambda>c. \<not> is_joker c) cs of
                            [] \<Rightarrow> s1
                          | c # _ \<Rightarrow> s1\<lparr>gs_trump_suit := suit c,
                                         gs_trump := \<lparr>trump_suit = suit c,
                                                      trump_rank = gs_trump_rank s1\<rparr>\<rparr>)
                in Some (s2, True, Declaration_accepted)))
      })"

definition is_dealing_done :: "game_state \<Rightarrow> bool" where
  "is_dealing_done s = (deal_idx s \<ge> kitty_start s)"

text \<open>\<open>for c in cards: hand.remove(c)\<close>, which raises on a card that is not there.\<close>

fun remove_cards :: "card list \<Rightarrow> card list \<Rightarrow> card list option" where
  "remove_cards [] hand = Some hand"
| "remove_cards (c # cs) hand =
     (if c \<in> set hand then remove_cards cs (remove1 c hand) else None)"

definition bury_kitty :: "game_state \<Rightarrow> card list \<Rightarrow> game_state option" where
  "bury_kitty s cards_to_bury =
     (let player_idx = declaring_player s in
      if length cards_to_bury \<noteq> KITTY_SIZE then None
      else if player_idx \<ge> length (hands s) then None
      else do {
        hand \<leftarrow> remove_cards cards_to_bury (hands s ! player_idx @ kitty s);
        Some (s\<lparr>hands := (hands s)[player_idx := hand],
                kitty := cards_to_bury,
                phase := PLAYING,
                current_trick := Some (new_trick (gs_trump s) player_idx),
                current_player := player_idx\<rparr>)
      })"

definition all_cards_played :: "game_state \<Rightarrow> bool" where
  "all_cards_played s = list_all (\<lambda>h. length h = 0) (hands s)"

definition play_cards :: "game_state \<Rightarrow> nat \<Rightarrow> card list \<Rightarrow> (game_state \<times> nat option) option" where
  "play_cards s player_idx cs =
     (if player_idx \<noteq> current_player s then None
      else if phase s \<noteq> PLAYING then None
      else if cs \<noteq> [] \<and> player_idx \<ge> length (hands s) then None
      else do {
        hand \<leftarrow> (if cs = [] then Some [] else remove_cards cs (hands s ! player_idx));
        let s1 = (if cs = [] then s else s\<lparr>hands := (hands s)[player_idx := hand]\<rparr>);
        t0 \<leftarrow> current_trick s1;
        t \<leftarrow> trick_play t0 player_idx cs;
        let s2 = s1\<lparr>current_trick := Some t\<rparr>;
        if is_complete t then do {
          w \<leftarrow> winner t;
          let pts = points t;
          let winning_team = w mod 2;
          if winning_team \<ge> length (scores s2) then None
          else (let s3 = s2\<lparr>scores := (scores s2)[winning_team := scores s2 ! winning_team + pts],
                            tricks := tricks s2 @ [t],
                            trick_winner_log := trick_winner_log s2 @ [(length (tricks s2), w)]\<rparr>
                in if all_cards_played s3 then
                     (let kitty_pts = sum_list (map point_value (kitty s3))
                      in Some (s3\<lparr>scores := (scores s3)[winning_team :=
                                                scores s3 ! winning_team + kitty_pts],
                                  phase := SCORING\<rparr>, Some w))
                   else Some (s3\<lparr>current_trick := Some (new_trick (gs_trump s3) w),
                                 current_player := w\<rparr>, Some w))
        }
        else if num_players s2 = 0 then None
        else Some (s2\<lparr>current_player := (player_idx + 1) mod num_players s2\<rparr>, None)
      })"

text \<open>Python list indexing with an integer, negative indices counting from the end.\<close>

definition py_get :: "'a list \<Rightarrow> int \<Rightarrow> 'a option" where
  "py_get xs i =
     (if 0 \<le> i \<and> i < int (length xs) then Some (xs ! nat i)
      else if i < 0 \<and> - int (length xs) \<le> i then Some (xs ! nat (int (length xs) + i))
      else None)"

definition defending_team :: "game_state \<Rightarrow> int" where
  "defending_team s = 1 - declaring_team s"

definition attacker_points :: "game_state \<Rightarrow> int option" where
  "attacker_points s = py_get (scores s) (defending_team s)"

record round_outcome =
  attacker_pts :: int
  attackers_win :: bool
  winner_team :: int
  leveling_team :: int
  level_delta :: int
  def_team :: int
  atk_team :: int

definition compute_round_outcome :: "game_state \<Rightarrow> round_outcome option" where
  "compute_round_outcome s = do {
     pts \<leftarrow> attacker_points s;
     let def_t = declaring_team s;
     let atk_t = 1 - def_t;
     let (win, delta, wteam) =
       (if pts < 40 then (False, 2, def_t)
        else if pts < 80 then (False, 1, def_t)
        else if pts < 120 then (True, 0, atk_t)
        else if pts < 160 then (True, 1, atk_t)
        else if pts < 200 then (True, 2, atk_t)
        else (True, 3, atk_t));
     let lteam = (if \<not> win then def_t else atk_t);
     Some \<lparr>attacker_pts = pts, attackers_win = win, winner_team = wteam,
           leveling_team = lteam, level_delta = delta, def_team = def_t, atk_team = atk_t\<rparr>
   }"

section \<open>Bands of the trump order\<close>

text \<open>
  The five kinds of trump card, numbered in the order in which \<open>trump_order\<close> ranks them:
  0 for a card of the trump suit that is not of the trump rank, 1 for a card of the trump
  rank in another suit, 2 for the trump-suit card of the trump rank, 3 for the small joker,
  4 for the big joker.  Within band 0 a card's position is the index of its rank in
  \<open>RANKS\<close>; within band 1 it is the index of its suit in the suit rotation, \<open>SUITS\<close>
  without the trump suit.
\<close>

definition rank_pos :: "rank \<Rightarrow> nat" where
  "rank_pos r = (case index_of r RANKS of Some i \<Rightarrow> i | None \<Rightarrow> 0)"

definition rotation_pos :: "trump_system \<Rightarrow> suit \<Rightarrow> nat" where
  "rotation_pos ts s =
     (case index_of s (filter (\<lambda>x. x \<noteq> trump_suit ts) SUITS) of Some i \<Rightarrow> i | None \<Rightarrow> 0)"

definition trump_band :: "trump_system \<Rightarrow> card \<Rightarrow> nat" where
  "trump_band ts c =
     (if suit c = BigJoker then 4
      else if suit c = SmallJoker then 3
      else if rank c = trump_rank ts then (if suit c = trump_suit ts then 2 else 1)
      else 0)"

definition band_pos :: "trump_system \<Rightarrow> card \<Rightarrow> nat" where
  "band_pos ts c =
     (if trump_band ts c = 0 then rank_pos (rank c)
      else if trump_band ts c = 1 then rotation_pos ts (suit c)
      else 0)"

text \<open>Trump system and cards used in the examples: spades are trump, the trump rank is 2.\<close>

definition spades_two :: trump_system where
  "spades_two = \<lparr>trump_suit = Spades, trump_rank = R2\<rparr>"


definition big_joker :: "nat \<Rightarrow> card" where
  "big_joker d = mk_card BigJoker RankBJ d"

section \<open>Quantities and examples for the state machine\<close>

text \<open>
  The ladder of bid strengths as the specification lists it: a single card of the trump
  rank 1, a pair of trump-rank cards of one suit 2, a single small joker 3, a pair of small
  jokers 4, a single big joker 5, a pair of big jokers 6, anything else 0.
\<close>

definition bid_ladder :: "card list \<Rightarrow> rank \<Rightarrow> int" where
  "bid_ladder cs tr =
     (if length cs = 1 \<and> (\<forall>c \<in> set cs. \<not> is_joker c \<and> rank c = tr) then 1
      else if length cs = 2 \<and> (\<forall>c \<in> set cs. \<not> is_joker c \<and> rank c = tr \<and> suit c = suit (hd cs)) then 2
      else if length cs = 1 \<and> (\<forall>c \<in> set cs. is_small_joker c) then 3
      else if length cs = 2 \<and> (\<forall>c \<in> set cs. is_small_joker c) then 4
      else if length cs = 1 \<and> (\<forall>c \<in> set cs. is_big_joker c) then 5
      else if length cs = 2 \<and> (\<forall>c \<in> set cs. is_big_joker c) then 6
      else 0)"

text \<open>The terms of the conservation sum.\<close>

definition hand_cards :: "game_state \<Rightarrow> nat" where
  "hand_cards s = sum_list (map length (hands s))"

definition trick_cards :: "trick \<Rightarrow> nat" where
  "trick_cards t = length (concat (map snd (plays t)))"

text \<open>
  Cards played into tricks: those of the archived tricks and those of the current trick
  while it is still open (a complete trick has been archived by \<open>play_cards\<close>).
\<close>

definition cards_played :: "game_state \<Rightarrow> nat" where
  "cards_played s =
     sum_list (map trick_cards (tricks s))
     + (case current_trick s of
          None \<Rightarrow> 0
        | Some t \<Rightarrow> if is_complete t then 0 else trick_cards t)"

text \<open>Cards still in the deal queue: what \<open>deal_next_card\<close> has not handed out yet.\<close>

definition undealt :: "game_state \<Rightarrow> nat" where
  "undealt s = (if phase s = DEALING then length (deck s) - deal_idx s else 0)"

text \<open>
  The states a round can be in: a fresh \<open>GameState\<close> over a deck \<open>dk\<close> (whose
  \<open>declaring_player\<close> the driver may set), followed by calls of the mutating operations
  that return; \<open>bury_kitty\<close> is called in the KITTY phase.
\<close>

inductive reachable :: "card list \<Rightarrow> game_state \<Rightarrow> bool" for dk :: "card list" where
  reach_init: "init_game dk n tr team = Some s \<Longrightarrow> reachable dk (s\<lparr>declaring_player := kp\<rparr>)"
| reach_deal: "reachable dk s \<Longrightarrow> deal_next_card s = Some (s', r) \<Longrightarrow> reachable dk s'"
| reach_declare: "reachable dk s \<Longrightarrow> declare_trump s p cs = Some (s', b, m) \<Longrightarrow> reachable dk s'"
| reach_bury: "reachable dk s \<Longrightarrow> phase s = KITTY \<Longrightarrow> bury_kitty s cs = Some s'
     \<Longrightarrow> reachable dk s'"
| reach_play: "reachable dk s \<Longrightarrow> play_cards s p cs = Some (s', w) \<Longrightarrow> reachable dk s'"

text \<open>A fresh four-player game over the unshuffled double deck, and the state after one deal.\<close>

definition demo_state :: game_state where
  "demo_state = \<lparr>num_players = 4, gs_trump_rank = R2, current_declaration = None,
                 declaration_strength = 0, declaring_player = 0,
                 declaring_team = 0, gs_trump_suit = Spades,
                 gs_trump = \<lparr>trump_suit = Spades, trump_rank = R2\<rparr>,
                 team_levels = [R2, R2], hands = [[], [], [], []], kitty = [],
                 phase = DEALING, current_player = 0, tricks = [], current_trick = None,
                 scores = [0, 0], trick_winner_log = [], deck = make_double_deck, deal_idx = 0,
                 cards_per_player = 25, kitty_start = 100\<rparr>"

definition dealt_once :: game_state where
  "dealt_once = demo_state\<lparr>hands := [[mk_card Clubs R2 0], [], [], []], deal_idx := 1\<rparr>"

text \<open>
  What every reachable state satisfies: the conservation sum over the deck of the round,
  together with the facts about the phases that carry it through each operation.
\<close>

definition round_inv :: "card list \<Rightarrow> game_state \<Rightarrow> bool" where
  "round_inv dk s =
     (deck s = dk \<and> kitty_start s \<le> length dk
      \<and> hand_cards s + length (kitty s) + cards_played s + undealt s = length dk
      \<and> (phase s = DEALING \<longrightarrow> kitty s = [])
      \<and> (phase s \<noteq> DEALING \<longrightarrow> kitty_start s \<le> deal_idx s)
      \<and> (phase s = DEALING \<or> phase s = KITTY \<longrightarrow> current_trick s = None)
      \<and> (phase s = PLAYING \<longrightarrow> (\<forall>t. current_trick s = Some t \<longrightarrow> length (plays t) < 4))
      \<and> (phase s = SCORING \<longrightarrow> (\<forall>t. current_trick s = Some t \<longrightarrow> is_complete t)))"

section \<open>Example hands and tricks\<close>

text \<open>Both deck copies of one card.\<close>

definition pair_of :: "suit \<Rightarrow> rank \<Rightarrow> card list" where
  "pair_of s r = [mk_card s r 0, mk_card s r 1]"

text \<open>
  A ten-card lead in hearts made of a two-pair tractor (3-3-4-4) and a three-pair tractor
  (6-6-7-7-8-8), ten trump cards whose four highest and six next cards are tractors while
  its six highest are not, and two off-suit plays.  Spades and 2 are trump.
\<close>

definition lead_low4 :: "card list" where
  "lead_low4 = pair_of Hearts R3 @ pair_of Hearts R4"

definition lead_high6 :: "card list" where
  "lead_high6 = pair_of Hearts R6 @ pair_of Hearts R7 @ pair_of Hearts R8"

definition trump_ten :: "card list" where
  "trump_ten = pair_of Spades RK @ pair_of Spades RQ @ pair_of Spades R10
               @ pair_of Spades R9 @ pair_of Spades R8"

definition clubs_ten :: "card list" where
  "clubs_ten = pair_of Clubs R3 @ pair_of Clubs R4 @ pair_of Clubs R5
               @ pair_of Clubs R6 @ pair_of Clubs R7"

definition diamonds_ten :: "card list" where
  "diamonds_ten = pair_of Diamonds R3 @ pair_of Diamonds R4 @ pair_of Diamonds R5
                  @ pair_of Diamonds R6 @ pair_of Diamonds R7"

definition demo_trick :: "trick option" where
  "demo_trick = do {
     t1 \<leftarrow> trick_play (new_trick spades_two 0) 0 (lead_low4 @ lead_high6);
     t2 \<leftarrow> trick_play t1 1 trump_ten;
     t3 \<leftarrow> trick_play t2 2 clubs_ten;
     trick_play t3 3 diamonds_ten
   }"

text \<open>A led pair of kings of hearts, and a hand whose hearts are the pairs 3-3 and 4-4.\<close>

definition kings_led :: card_combo where
  "kings_led = \<lparr>cards = pair_of Hearts RK, combo_trump = spades_two, ctype = PAIR,
                 components = [pair_of Hearts RK]\<rparr>"

definition hearts_33_44 :: "card list" where
  "hearts_33_44 = pair_of Hearts R3 @ pair_of Hearts R4"

text \<open>
  A led three-pair tractor in hearts, and a hand whose hearts are the two two-pair
  tractors 6-6-7-7 and 9-9-10-10.
\<close>

definition tractor_led :: card_combo where
  "tractor_led = \<lparr>cards = pair_of Hearts R3 @ pair_of Hearts R4 @ pair_of Hearts R5,
                   combo_trump = spades_two, ctype = TRACTOR,
                   components = [pair_of Hearts R3 @ pair_of Hearts R4 @ pair_of Hearts R5]\<rparr>"

definition hearts_two_tractors :: "card list" where
  "hearts_two_tractors = pair_of Hearts R6 @ pair_of Hearts R7
                         @ pair_of Hearts R9 @ pair_of Hearts R10"

section \<open>Cards of the same face\<close>

text \<open>
  Two cards of the same suit and rank: the same card of the deck or its two physical
  copies.  Two lists of cards are equal plays when they agree card by card in this sense.
\<close>

definition same_face :: "card \<Rightarrow> card \<Rightarrow> bool" where
  "same_face a b = (suit a = suit b \<and> rank a = rank b)"

text \<open>Two keyed cards with the same key and the same face.\<close>

definition same_keyed :: "int \<times> card \<Rightarrow> int \<times> card \<Rightarrow> bool" where
  "same_keyed x y = (fst x = fst y \<and> same_face (snd x) (snd y))"

text \<open>Keys and sizes of the groups of a dictionary.\<close>

definition shape :: "('k \<times> 'v list) list \<Rightarrow> ('k \<times> nat) list" where
  "shape g = map (\<lambda>(k, v). (k, length v)) g"

section \<open>Verified properties\<close>

subsection \<open>Order values\<close>

lemma rank_pos_le: "rank_pos r \<le> 12"
  by (cases r) (simp_all add: rank_pos_def RANKS_def)

lemma RANK_VAL_wf: "r \<in> set RANKS \<Longrightarrow> RANK_VAL r = Some (int (rank_pos r))"
  by (cases r) (simp_all add: RANK_VAL_def rank_pos_def RANKS_def)

lemma rotation_index:
  "s \<in> set SUITS \<Longrightarrow> s \<noteq> t \<Longrightarrow>
   index_of s (filter (\<lambda>x. x \<noteq> t) SUITS) = Some (rotation_pos \<lparr>trump_suit = t, trump_rank = r\<rparr> s)"
  by (cases s; cases t) (simp_all add: rotation_pos_def SUITS_def)

lemma rotation_pos_le: "rotation_pos ts s \<le> 3"
  by (cases s; cases "trump_suit ts") (simp_all add: rotation_pos_def SUITS_def)

lemma trump_order_value:
  assumes "wf_card c" "is_trump ts c"
  shows "trump_order ts c = Some
           (if trump_band ts c = 4 then 1000
            else if trump_band ts c = 3 then 999
            else if trump_band ts c = 2 then 998
            else if trump_band ts c = 1 then 500 + int (band_pos ts c)
            else int (band_pos ts c))"
proof -
  have rot: "s \<in> set SUITS \<Longrightarrow> s \<noteq> trump_suit ts \<Longrightarrow>
     index_of s (filter (\<lambda>x. x \<noteq> trump_suit ts) SUITS) = Some (rotation_pos ts s)" for s
    using rotation_index[of s "trump_suit ts" "trump_rank ts"]
    by (simp add: rotation_pos_def)
  have nj: "\<not> is_joker c \<Longrightarrow> suit c \<in> set SUITS \<and> rank c \<in> set RANKS"
    using assms(1) by (auto simp: wf_card_def is_joker_def)
  show ?thesis
  proof (cases "is_joker c")
    case True
    then show ?thesis
      by (auto simp: is_joker_def trump_order_def trump_band_def is_big_joker_def is_small_joker_def)
  next
    case False
    note nj' = nj[OF False]
    from False have sj: "suit c \<noteq> SmallJoker" "suit c \<noteq> BigJoker" by (auto simp: is_joker_def)
    show ?thesis
    proof (cases "rank c = trump_rank ts")
      case True
      then show ?thesis using sj rot[of "suit c"] nj'
        by (simp add: trump_order_def trump_band_def band_pos_def is_big_joker_def is_small_joker_def)
    next
      case nr: False
      with assms(2) False have "suit c = trump_suit ts" by (simp add: is_trump_def split: if_splits)
      then show ?thesis using sj nr nj' RANK_VAL_wf[of "rank c"]
        by (simp add: trump_order_def trump_band_def band_pos_def is_big_joker_def is_small_joker_def)
    qed
  qed
qed

lemma trump_band_le: "trump_band ts c \<le> 4"
  by (simp add: trump_band_def)

lemma band_pos_le: "band_pos ts c \<le> 12"
  using rank_pos_le[of "rank c"] rotation_pos_le[of ts "suit c"] by (simp add: band_pos_def)

lemma band_pos_high: "2 \<le> trump_band ts c \<Longrightarrow> band_pos ts c = 0"
  by (simp add: band_pos_def)

text \<open>
  C1 (as the code has it).  On the trump cards \<open>trump_order\<close> is defined, and it orders two
  trump cards first by band and then by position in the band: every trump-suit card of
  another rank (by rank) is below every card of the trump rank in another suit (those by
  suit rotation), which are below the trump-suit card of the trump rank, which is below the
  small joker, which is below the big joker.
\<close>

theorem trump_order_bands:
  assumes "wf_card a" "wf_card b" "is_trump ts a" "is_trump ts b"
  shows "\<exists>va vb. trump_order ts a = Some va \<and> trump_order ts b = Some vb \<and>
           (va < vb \<longleftrightarrow> trump_band ts a < trump_band ts b
                      \<or> (trump_band ts a = trump_band ts b \<and> band_pos ts a < band_pos ts b))"
  unfolding trump_order_value[OF assms(1,3)] trump_order_value[OF assms(2,4)]
  using trump_band_le[of ts a] trump_band_le[of ts b] band_pos_le[of ts a] band_pos_le[of ts b]
    band_pos_high[of ts a] band_pos_high[of ts b]
  by (auto split: if_splits)

theorem trump_order_bands_witness:
  "wf_card (mk_card Spades RA 0) \<and> wf_card (mk_card Clubs R2 1)
   \<and> is_trump spades_two (mk_card Spades RA 0) \<and> is_trump spades_two (mk_card Clubs R2 1)
   \<and> trump_order spades_two (mk_card Spades RA 0) = Some 12
   \<and> trump_order spades_two (mk_card Clubs R2 1) = Some 500
   \<and> trump_band spades_two (mk_card Spades RA 0) < trump_band spades_two (mk_card Clubs R2 1)"
proof -
  have h: "wf_card (mk_card Spades RA 0)" "wf_card (mk_card Clubs R2 1)"
    "is_trump spades_two (mk_card Spades RA 0)" "is_trump spades_two (mk_card Clubs R2 1)"
    by (simp_all add: wf_card_def mk_card_def SUITS_def RANKS_def is_trump_def is_joker_def
        spades_two_def)
  have v: "trump_order spades_two (mk_card Spades RA 0) = Some 12"
    "trump_order spades_two (mk_card Clubs R2 1) = Some 500"
    by (simp_all add: trump_order_def mk_card_def spades_two_def is_big_joker_def
        is_small_joker_def RANK_VAL_def RANKS_def SUITS_def)
  from trump_order_bands[OF h] v
  have "trump_band spades_two (mk_card Spades RA 0) < trump_band spades_two (mk_card Clubs R2 1)
        \<or> (trump_band spades_two (mk_card Spades RA 0) = trump_band spades_two (mk_card Clubs R2 1)
           \<and> band_pos spades_two (mk_card Spades RA 0) < band_pos spades_two (mk_card Clubs R2 1))"
    by simp
  then have "trump_band spades_two (mk_card Spades RA 0) < trump_band spades_two (mk_card Clubs R2 1)"
    by (simp add: trump_band_def mk_card_def spades_two_def)
  with h v show ?thesis by simp
qed

text \<open>
  The claim as written fails: with spades and 2 as trump, the 2 of spades (998) is above,
  not below, the 2 of hearts (502).
\<close>

theorem trump_rank_of_trump_suit_counterexample:
  "trump_order spades_two (mk_card Spades R2 0) = Some 998
   \<and> trump_order spades_two (mk_card Hearts R2 0) = Some 502
   \<and> \<not> ((998::int) < 502)"
  by (simp add: trump_order_def mk_card_def spades_two_def is_big_joker_def
      is_small_joker_def SUITS_def)




subsection \<open>Conservation of cards\<close>

lemma len_deck: "length make_double_deck = 108"
  by (simp add: make_double_deck_def RANKS_def SUITS_def)

lemma first_card: "make_double_deck ! 0 = mk_card Clubs R2 0"
  by (simp add: make_double_deck_def RANKS_def SUITS_def)

lemma rep4: "replicate 4 x = [x, x, x, x]"
  by (simp add: eval_nat_numeral)

lemma demo_init: "init_game make_double_deck 4 R2 0 = Some demo_state"
  by (simp add: init_game_def demo_state_def len_deck KITTY_SIZE_def rep4)

lemma demo_deal: "deal_next_card demo_state = Some (dealt_once, Some (0, mk_card Clubs R2 0))"
  by (simp add: deal_next_card_def demo_state_def dealt_once_def len_deck first_card Let_def)

lemma card_orders_length: "card_orders ts cs = Some ks \<Longrightarrow> length ks = length cs"
  by (induction cs arbitrary: ks) (auto split: bind_splits)

lemma sort_hand_length: "sort_hand ts h = Some h' \<Longrightarrow> length h' = length h"
  by (auto simp: sort_hand_def card_orders_length split: bind_splits)

lemma sort_hands_lengths: "sort_hands ts hs = Some hs' \<Longrightarrow> map length hs' = map length hs"
  by (induction hs arbitrary: hs') (auto simp: sort_hand_length split: bind_splits)

lemma finalize_declaration_keeps:
  assumes "finalize_declaration s = Some s'"
  shows "hand_cards s' = hand_cards s \<and> kitty s' = kitty s \<and> tricks s' = tricks s
    \<and> current_trick s' = current_trick s \<and> deck s' = deck s \<and> deal_idx s' = deal_idx s
    \<and> kitty_start s' = kitty_start s \<and> phase s' = phase s"
proof -
  define s1 where "s1 = resolve_declaration s"
  have k: "hands s1 = hands s \<and> kitty s1 = kitty s \<and> tricks s1 = tricks s
    \<and> current_trick s1 = current_trick s \<and> deck s1 = deck s \<and> deal_idx s1 = deal_idx s
    \<and> kitty_start s1 = kitty_start s \<and> phase s1 = phase s"
    by (simp add: s1_def resolve_declaration_def Let_def split: option.splits prod.splits list.splits)
  from assms obtain sorted where
    srt: "sort_hands \<lparr>trump_suit = gs_trump_suit s1, trump_rank = gs_trump_rank s1\<rparr>
            (take (num_players s1) (hands s1)) = Some sorted"
    and s': "s' = s1\<lparr>gs_trump := \<lparr>trump_suit = gs_trump_suit s1, trump_rank = gs_trump_rank s1\<rparr>,
                     hands := sorted @ drop (num_players s1) (hands s1)\<rparr>"
    unfolding finalize_declaration_def s1_def[symmetric] Let_def
    by (auto split: if_splits bind_splits)
  have "map length (hands s') = map length (take (num_players s1) (hands s1) @ drop (num_players s1) (hands s1))"
    using sort_hands_lengths[OF srt] by (simp add: s' del: append_take_drop_id)
  then have "map length (hands s') = map length (hands s1)" by simp
  then have "hand_cards s' = hand_cards s" using k by (simp add: hand_cards_def)
  then show ?thesis using k by (simp add: s')
qed

lemma hand_cards_update:
  "i < length (hands s) \<Longrightarrow>
   sum_list (map length ((hands s)[i := h])) + length (hands s ! i) = hand_cards s + length h"
proof -
  assume i: "i < length (hands s)"
  have "sum_list ((map length (hands s))[i := length h]) = sum_list (map length (hands s)) + length h - map length (hands s) ! i"
    using i by (simp add: sum_list_update)
  moreover have "map length (hands s) ! i \<le> sum_list (map length (hands s))"
    using i by (simp add: member_le_sum_list)
  ultimately show ?thesis using i by (simp add: hand_cards_def map_update)
qed

lemma remove_cards_length:
  "remove_cards cs h = Some h' \<Longrightarrow> length h' + length cs = length h"
proof (induction cs arbitrary: h)
  case Nil then show ?case by simp
next
  case (Cons c cs)
  then have "c \<in> set h" and r: "remove_cards cs (remove1 c h) = Some h'"
    by (auto split: if_splits)
  from Cons.IH[OF r] \<open>c \<in> set h\<close> show ?case
    by (simp add: length_remove1) (metis One_nat_def Suc_pred length_pos_if_in_set)
qed

lemma inv_init:
  assumes "init_game dk n tr team = Some s"
  shows "round_inv dk (s\<lparr>declaring_player := kp\<rparr>)"
proof -
  have "n \<noteq> 0" using assms by (auto simp: init_game_def split: if_splits)
  have "(length dk - KITTY_SIZE) div n * n \<le> length dk"
    by (meson diff_le_self div_times_less_eq_dividend le_trans)
  with assms \<open>n \<noteq> 0\<close> show ?thesis
    by (auto simp: init_game_def round_inv_def hand_cards_def cards_played_def undealt_def)
qed

lemma inv_deal:
  assumes inv: "round_inv dk s" and d: "deal_next_card s = Some (s', r)"
  shows "round_inv dk s'"
proof (cases "kitty_start s \<le> deal_idx s")
  case True
  with d inv show ?thesis by (simp add: deal_next_card_def)
next
  case False
  then have lt: "deal_idx s < kitty_start s" by simp
  with inv have ph: "phase s = DEALING" by (auto simp: round_inv_def)
  define p where "p = deal_idx s mod num_players s"
  define hs where "hs = (hands s)[p := hands s ! p @ [deck s ! deal_idx s]]"
  from d lt have pl: "p < length (hands s)" and dl: "deal_idx s < length (deck s)"
    by (auto simp: deal_next_card_def p_def Let_def split: if_splits)
  have h1: "sum_list (map length hs) = hand_cards s + 1"
    using hand_cards_update[OF pl, of "hands s ! p @ [deck s ! deal_idx s]"]
    by (simp add: hs_def)
  from inv ph have base: "deck s = dk" "kitty_start s \<le> length dk" "kitty s = []"
    "current_trick s = None"
    "hand_cards s + cards_played s + (length dk - deal_idx s) = length dk"
    by (auto simp: round_inv_def undealt_def)
  show ?thesis
  proof (cases "kitty_start s \<le> Suc (deal_idx s)")
    case fin: True
    then have eq: "Suc (deal_idx s) = kitty_start s" using lt by simp
    from d lt pl dl fin obtain s2 where
      f: "finalize_declaration (s\<lparr>hands := hs, deal_idx := Suc (deal_idx s),
             kitty := drop (kitty_start s) (deck s)\<rparr>) = Some s2"
      and s': "s' = s2\<lparr>phase := KITTY\<rparr>"
      by (auto simp: deal_next_card_def p_def[symmetric] Let_def hs_def[symmetric]
          split: if_splits bind_splits)
    note k = finalize_declaration_keeps[OF f]
    have hc: "hand_cards s' = hand_cards s + 1"
      using k h1 by (simp add: s' hand_cards_def)
    have cp: "cards_played s' = cards_played s"
      using k by (simp add: s' cards_played_def)
    have kl: "length (kitty s') = length dk - kitty_start s"
      using k base by (simp add: s')
    have "hand_cards s' + length (kitty s') + cards_played s' + undealt s' = length dk"
      using hc cp kl base eq by (simp add: undealt_def s')
    moreover have "deck s' = dk" "kitty_start s' = kitty_start s" "deal_idx s' = Suc (deal_idx s)"
      "current_trick s' = None" "phase s' = KITTY"
      using k base by (simp_all add: s')
    ultimately show ?thesis using base eq by (simp add: round_inv_def)
  next
    case nf: False
    with d lt pl dl have s': "s' = s\<lparr>hands := hs, deal_idx := Suc (deal_idx s)\<rparr>"
      by (auto simp: deal_next_card_def p_def[symmetric] Let_def hs_def[symmetric]
          split: if_splits)
    have "hand_cards s' + length (kitty s') + cards_played s' + undealt s' = length dk"
      using h1 base ph dl by (simp add: undealt_def s' hand_cards_def cards_played_def)
    moreover have "deck s' = dk" "kitty_start s' = kitty_start s" "phase s' = DEALING"
      "kitty s' = []" "current_trick s' = None"
      using base ph by (simp_all add: s')
    ultimately show ?thesis using base by (simp add: round_inv_def)
  qed
qed

lemma inv_declare:
  assumes inv: "round_inv dk s" and d: "declare_trump s p cs = Some (s', b, m)"
  shows "round_inv dk s'"
proof -
  from d have "hands s' = hands s \<and> kitty s' = kitty s \<and> tricks s' = tricks s
    \<and> current_trick s' = current_trick s \<and> deck s' = deck s \<and> deal_idx s' = deal_idx s
    \<and> kitty_start s' = kitty_start s \<and> phase s' = phase s"
    by (auto simp: declare_trump_def Let_def split: if_splits bind_splits list.splits)
  with inv show ?thesis
    by (auto simp: round_inv_def hand_cards_def cards_played_def undealt_def)
qed

lemma inv_bury:
  assumes inv: "round_inv dk s" and ph: "phase s = KITTY" and d: "bury_kitty s cs = Some s'"
  shows "round_inv dk s'"
proof -
  define p where "p = declaring_player s"
  from d obtain hand where len: "length cs = KITTY_SIZE" and pl: "p < length (hands s)"
    and rm: "remove_cards cs (hands s ! p @ kitty s) = Some hand"
    and s': "s' = s\<lparr>hands := (hands s)[p := hand], kitty := cs, phase := PLAYING,
                current_trick := Some (new_trick (gs_trump s) p), current_player := p\<rparr>"
    by (auto simp: bury_kitty_def Let_def p_def split: if_splits bind_splits)
  from remove_cards_length[OF rm]
  have hl: "length hand + length cs = length (hands s ! p) + length (kitty s)" by simp
  from inv ph have base: "deck s = dk" "kitty_start s \<le> length dk" "current_trick s = None"
    "kitty_start s \<le> deal_idx s"
    "hand_cards s + length (kitty s) + cards_played s = length dk"
    by (auto simp: round_inv_def undealt_def)
  have "hand_cards s' + length (hands s ! p) = hand_cards s + length hand"
    using hand_cards_update[OF pl, of hand] by (simp add: s' hand_cards_def)
  moreover have "cards_played s' = cards_played s"
    using base by (simp add: s' cards_played_def new_trick_def is_complete_def trick_cards_def)
  ultimately have "hand_cards s' + length (kitty s') + cards_played s' + undealt s' = length dk"
    using hl base by (simp add: s' undealt_def)
  then show ?thesis using base
    by (simp add: round_inv_def s' new_trick_def)
qed

lemma trick_play_plays: "trick_play t p cs = Some t' \<Longrightarrow> plays t' = plays t @ [(p, cs)]"
  by (auto simp: trick_play_def split: bind_splits)

lemma inv_play:
  assumes inv: "round_inv dk s" and d: "play_cards s p cs = Some (s', w)"
  shows "round_inv dk s'"
proof -
  from d have ph: "phase s = PLAYING" by (auto simp: play_cards_def split: if_splits)
  from d obtain hand t0 t where
    rm: "cs \<noteq> [] \<Longrightarrow> p < length (hands s) \<and> remove_cards cs (hands s ! p) = Some hand"
    and ct: "current_trick s = Some t0" and tp: "trick_play t0 p cs = Some t"
    by (auto simp: play_cards_def Let_def split: if_splits bind_splits)
  define s1 where "s1 = (if cs = [] then s else s\<lparr>hands := (hands s)[p := hand]\<rparr>)"
  have hc1: "hand_cards s1 + length cs = hand_cards s"
  proof (cases "cs = []")
    case True then show ?thesis by (simp add: s1_def)
  next
    case False
    from rm[OF False] have pl: "p < length (hands s)" and r: "remove_cards cs (hands s ! p) = Some hand"
      by simp_all
    from hand_cards_update[OF pl, of hand] remove_cards_length[OF r] False
    show ?thesis by (simp add: s1_def hand_cards_def)
  qed
  from inv ph ct have base: "deck s = dk" "kitty_start s \<le> length dk"
    "kitty_start s \<le> deal_idx s" "length (plays t0) < 4"
    "hand_cards s + length (kitty s) + cards_played s = length dk"
    by (auto simp: round_inv_def undealt_def)
  have tc: "trick_cards t = trick_cards t0 + length cs"
    using trick_play_plays[OF tp] by (simp add: trick_cards_def)
  have cp0: "cards_played s = sum_list (map trick_cards (tricks s)) + trick_cards t0"
    using ct base by (simp add: cards_played_def is_complete_def)
  have k1: "kitty s1 = kitty s" "tricks s1 = tricks s" "deck s1 = deck s"
    "kitty_start s1 = kitty_start s" "deal_idx s1 = deal_idx s" "phase s1 = phase s"
    by (simp_all add: s1_def)
  have d': "play_cards s p cs = (do {
        let s2 = s1\<lparr>current_trick := Some t\<rparr>;
        if is_complete t then do {
          w \<leftarrow> winner t;
          let pts = points t;
          let winning_team = w mod 2;
          if winning_team \<ge> length (scores s2) then None
          else (let s3 = s2\<lparr>scores := (scores s2)[winning_team := scores s2 ! winning_team + pts],
                            tricks := tricks s2 @ [t],
                            trick_winner_log := trick_winner_log s2 @ [(length (tricks s2), w)]\<rparr>
                in if all_cards_played s3 then
                     (let kitty_pts = sum_list (map point_value (kitty s3))
                      in Some (s3\<lparr>scores := (scores s3)[winning_team :=
                                                scores s3 ! winning_team + kitty_pts],
                                  phase := SCORING\<rparr>, Some w))
                   else Some (s3\<lparr>current_trick := Some (new_trick (gs_trump s3) w),
                                 current_player := w\<rparr>, Some w))
        }
        else if num_players s2 = 0 then None
        else Some (s2\<lparr>current_player := (p + 1) mod num_players s2\<rparr>, None)
      })"
    using d ct tp rm
    by (cases "cs = []") (auto simp: play_cards_def s1_def split: if_splits)
  show ?thesis
  proof (cases "is_complete t")
    case False
    with d d' have s': "s' = s1\<lparr>current_trick := Some t, current_player := (p + 1) mod num_players s1\<rparr>"
      by (auto simp: Let_def split: if_splits)
    have lt: "length (plays t) < 4"
      using False base trick_play_plays[OF tp] by (simp add: is_complete_def)
    have "cards_played s' = cards_played s + length cs"
      using False tc cp0 k1 by (simp add: s' cards_played_def)
    then have "hand_cards s' + length (kitty s') + cards_played s' + undealt s' = length dk"
      using hc1 base k1 ph by (simp add: s' undealt_def hand_cards_def)
    then show ?thesis using base k1 ph lt by (simp add: round_inv_def s')
  next
    case True
    with d d' have f: "hands s' = hands s1 \<and> kitty s' = kitty s1 \<and> deck s' = deck s1
        \<and> kitty_start s' = kitty_start s1 \<and> deal_idx s' = deal_idx s1
        \<and> tricks s' = tricks s1 @ [t]
        \<and> ((phase s' = SCORING \<and> current_trick s' = Some t)
           \<or> (phase s' = phase s1 \<and> (\<exists>x. current_trick s' = Some (new_trick (gs_trump s1) x))))"
      by (auto simp: Let_def split: if_splits bind_splits)
    have "cards_played s' = cards_played s + length cs"
      using True tc cp0 k1 f by (auto simp: cards_played_def new_trick_def is_complete_def trick_cards_def)
    moreover have "hand_cards s' = hand_cards s1"
      using f by (simp add: hand_cards_def)
    moreover have ps: "phase s' = SCORING \<or> phase s' = PLAYING"
      using k1 ph f by auto
    ultimately have "hand_cards s' + length (kitty s') + cards_played s' + undealt s' = length dk"
      using hc1 base k1 f by (auto simp: undealt_def)
    moreover have "phase s' = PLAYING \<longrightarrow> (\<forall>t. current_trick s' = Some t \<longrightarrow> length (plays t) < 4)"
      using f by (auto simp: new_trick_def)
    moreover have "phase s' = SCORING \<longrightarrow> (\<forall>t. current_trick s' = Some t \<longrightarrow> is_complete t)"
      using True k1 ph f by auto
    moreover have "deck s' = dk" "kitty_start s' = kitty_start s" "deal_idx s' = deal_idx s"
      using k1 base f by simp_all
    ultimately show ?thesis using base ps by (auto simp: round_inv_def)
  qed
qed

lemma reachable_inv: "reachable dk s \<Longrightarrow> round_inv dk s"
proof (induction rule: reachable.induct)
  case (reach_init n tr team s kp)
  then show ?case by (rule inv_init)
next
  case (reach_deal s s' r)
  then show ?case using inv_deal by blast
next
  case (reach_declare s p cs s' b m)
  then show ?case using inv_declare by blast
next
  case (reach_bury s cs s')
  then show ?case using inv_bury by blast
next
  case (reach_play s p cs s' w)
  then show ?case using inv_play by blast
qed

text \<open>
  C5 (as the code has it).  In every state a round over a 108-card deck can reach, the
  cards in the hands, in the kitty, played into tricks and still waiting in the deal queue
  number 108 together; once dealing is over the queue term is zero, so that hands, kitty
  and played cards alone number 108 in the KITTY, PLAYING and SCORING phases.
\<close>

theorem card_conservation:
  assumes "length dk = 108" and "reachable dk s"
  shows "hand_cards s + length (kitty s) + cards_played s + undealt s = 108
         \<and> (phase s \<noteq> DEALING \<longrightarrow> hand_cards s + length (kitty s) + cards_played s = 108)"
  using reachable_inv[OF assms(2)] assms(1) by (auto simp: round_inv_def undealt_def)

theorem card_conservation_witness:
  "length make_double_deck = 108 \<and> reachable make_double_deck dealt_once
   \<and> hand_cards dealt_once + length (kitty dealt_once) + cards_played dealt_once
       + undealt dealt_once = 108
   \<and> undealt dealt_once = 107"
proof -
  have "reachable make_double_deck (demo_state\<lparr>declaring_player := 0\<rparr>)"
    using demo_init by (rule reach_init)
  then have "reachable make_double_deck demo_state" by (simp add: demo_state_def)
  then have r: "reachable make_double_deck dealt_once"
    using demo_deal by (rule reach_deal)
  have u: "undealt dealt_once = 107"
    by (simp add: undealt_def dealt_once_def demo_state_def len_deck)
  from card_conservation[OF len_deck r] u len_deck r show ?thesis by simp
qed

text \<open>
  The claim as written fails while dealing: after the first \<open>deal_next_card\<close> of a fresh
  game the hands hold one card, the kitty is still empty and nothing has been played.
\<close>

theorem conservation_while_dealing_counterexample:
  "init_game make_double_deck 4 R2 0 = Some demo_state
   \<and> deal_next_card demo_state = Some (dealt_once, Some (0, mk_card Clubs R2 0))
   \<and> phase dealt_once = DEALING
   \<and> hand_cards dealt_once + length (kitty dealt_once) + cards_played dealt_once = 1"
  using demo_init demo_deal
  by (simp add: dealt_once_def demo_state_def hand_cards_def cards_played_def)

subsection \<open>Trump declaration\<close>

lemma bid_strength_ladder: "bid_strength cs tr = bid_ladder cs tr"
proof (cases cs)
  case Nil then show ?thesis by (simp add: bid_strength_def bid_ladder_def)
next
  case (Cons c0 r1)
  show ?thesis
  proof (cases r1)
    case Nil
    with Cons show ?thesis
      by (auto simp: bid_strength_def bid_ladder_def is_joker_def is_big_joker_def is_small_joker_def)
  next
    case (Cons c1 r2)
    show ?thesis
    proof (cases r2)
      case Nil
      with Cons \<open>cs = c0 # r1\<close> show ?thesis
        by (auto simp: bid_strength_def bid_ladder_def is_joker_def is_big_joker_def is_small_joker_def)
    next
      case (Cons c2 r3)
      with \<open>r1 = c1 # r2\<close> \<open>cs = c0 # r1\<close> show ?thesis
        by (simp add: bid_strength_def bid_ladder_def)
    qed
  qed
qed

text \<open>
  C7.  For a seated player, \<open>declare_trump\<close> returns, and it accepts exactly when the phase
  is DEALING, every submitted card is in the player's hand and the strength of the cards on
  the bid ladder exceeds the current declaration strength.  A rejection returns the state
  unchanged together with a reason; an acceptance records the new strength and leaves
  hands and phase alone.
\<close>

theorem declare_trump_accepted_iff:
  assumes "player_idx < length (hands s)" and "0 \<le> declaration_strength s"
  shows "\<exists>s' ok msg. declare_trump s player_idx cs = Some (s', ok, msg)
     \<and> (ok \<longleftrightarrow> phase s = DEALING \<and> (\<forall>c \<in> set cs. c \<in> set (hands s ! player_idx))
                \<and> declaration_strength s < bid_ladder cs (gs_trump_rank s))
     \<and> (\<not> ok \<longrightarrow> s' = s \<and> msg \<noteq> Declaration_accepted)
     \<and> (ok \<longrightarrow> hands s' = hands s \<and> phase s' = phase s
               \<and> declaration_strength s' = bid_ladder cs (gs_trump_rank s))"
proof -
  have a: "all_in_hand (hands s) player_idx cs = Some (\<forall>c \<in> set cs. c \<in> set (hands s ! player_idx))"
    using assms(1) by (auto simp: all_in_hand_def list_all_iff)
  show ?thesis using assms(2)
    by (auto simp: declare_trump_def a Let_def bid_strength_ladder split: list.splits)
qed

lemma init_game_strength:
  "init_game dk n tr team = Some s \<Longrightarrow> declaration_strength s = 0 \<and> phase s = DEALING"
  by (auto simp: init_game_def split: if_splits)

theorem declare_trump_accepted_iff_witness:
  "0 < length (hands dealt_once) \<and> 0 \<le> declaration_strength dealt_once
   \<and> bid_ladder [mk_card Clubs R2 0] (gs_trump_rank dealt_once) = 1
   \<and> (\<exists>s' msg. declare_trump dealt_once 0 [mk_card Clubs R2 0] = Some (s', True, msg))"
proof -
  have h: "0 < length (hands dealt_once)" "0 \<le> declaration_strength dealt_once"
    by (simp_all add: dealt_once_def demo_state_def)
  have l: "bid_ladder [mk_card Clubs R2 0] (gs_trump_rank dealt_once) = 1"
    by (simp add: bid_ladder_def dealt_once_def demo_state_def mk_card_def is_joker_def)
  have r: "phase dealt_once = DEALING
      \<and> (\<forall>c \<in> set [mk_card Clubs R2 0]. c \<in> set (hands dealt_once ! 0))
      \<and> declaration_strength dealt_once < bid_ladder [mk_card Clubs R2 0] (gs_trump_rank dealt_once)"
    unfolding l by (simp add: dealt_once_def demo_state_def)
  from declare_trump_accepted_iff[OF h, of "[mk_card Clubs R2 0]"]
  obtain s' ok msg where d: "declare_trump dealt_once 0 [mk_card Clubs R2 0] = Some (s', ok, msg)"
    and ok: "ok \<longleftrightarrow> phase dealt_once = DEALING
      \<and> (\<forall>c \<in> set [mk_card Clubs R2 0]. c \<in> set (hands dealt_once ! 0))
      \<and> declaration_strength dealt_once < bid_ladder [mk_card Clubs R2 0] (gs_trump_rank dealt_once)"
    by blast
  from ok r have "ok = True" by simp
  with d have "\<exists>s' msg. declare_trump dealt_once 0 [mk_card Clubs R2 0] = Some (s', True, msg)"
    by simp
  with h l show ?thesis by simp
qed

subsection \<open>Round outcome\<close>

text \<open>
  C9.  With two team scores and a declaring team 0 or 1, \<open>compute_round_outcome\<close> returns
  the score of the other team as attacker points and maps it to the thresholds: below 40
  the attackers lose and the level change is 2, from 40 to 79 they lose and it is 1, from
  80 to 119 they win and it is 0, from 120 to 159 they win and it is 1, from 160 to 199
  they win and it is 2, from 200 on they win and it is 3.  Winner and levelling team are the
  declaring team when the attackers lose and the other team when they win.
\<close>

theorem compute_round_outcome_thresholds:
  assumes "length (scores s) = 2" "declaring_team s = 0 \<or> declaring_team s = 1"
  shows "\<exists>out. compute_round_outcome s = Some out
     \<and> attacker_pts out = scores s ! nat (1 - declaring_team s)
     \<and> (attacker_pts out < 40 \<longrightarrow> \<not> attackers_win out \<and> level_delta out = 2)
     \<and> (40 \<le> attacker_pts out \<and> attacker_pts out < 80 \<longrightarrow> \<not> attackers_win out \<and> level_delta out = 1)
     \<and> (80 \<le> attacker_pts out \<and> attacker_pts out < 120 \<longrightarrow> attackers_win out \<and> level_delta out = 0)
     \<and> (120 \<le> attacker_pts out \<and> attacker_pts out < 160 \<longrightarrow> attackers_win out \<and> level_delta out = 1)
     \<and> (160 \<le> attacker_pts out \<and> attacker_pts out < 200 \<longrightarrow> attackers_win out \<and> level_delta out = 2)
     \<and> (200 \<le> attacker_pts out \<longrightarrow> attackers_win out \<and> level_delta out = 3)
     \<and> (\<not> attackers_win out \<longrightarrow> winner_team out = declaring_team s \<and> leveling_team out = declaring_team s)
     \<and> (attackers_win out \<longrightarrow> winner_team out = 1 - declaring_team s \<and> leveling_team out = 1 - declaring_team s)"
proof -
  have "attacker_points s = Some (scores s ! nat (1 - declaring_team s))"
    using assms by (auto simp: attacker_points_def py_get_def defending_team_def)
  then show ?thesis
    by (auto simp: compute_round_outcome_def Let_def)
qed

theorem compute_round_outcome_thresholds_witness:
  "length (scores (demo_state\<lparr>scores := [30, 120]\<rparr>)) = 2
   \<and> declaring_team (demo_state\<lparr>scores := [30, 120]\<rparr>) = 0
   \<and> compute_round_outcome (demo_state\<lparr>scores := [30, 120]\<rparr>)
       = Some \<lparr>attacker_pts = 120, attackers_win = True, winner_team = 1, leveling_team = 1,
               level_delta = 1, def_team = 0, atk_team = 1\<rparr>"
proof -
  let ?s = "demo_state\<lparr>scores := [30, 120]\<rparr>"
  have h: "length (scores ?s) = 2" "declaring_team ?s = 0 \<or> declaring_team ?s = 1"
    by (simp_all add: demo_state_def)
  from compute_round_outcome_thresholds[OF h]
  obtain out where o: "compute_round_outcome ?s = Some out" "attacker_pts out = scores ?s ! nat (1 - declaring_team ?s)"
    "120 \<le> attacker_pts out \<and> attacker_pts out < 160 \<longrightarrow> attackers_win out \<and> level_delta out = 1"
    "attackers_win out \<longrightarrow> winner_team out = 1 - declaring_team ?s \<and> leveling_team out = 1 - declaring_team ?s"
    by blast
  have "compute_round_outcome ?s = Some \<lparr>attacker_pts = 120, attackers_win = True, winner_team = 1, leveling_team = 1,
               level_delta = 1, def_team = 0, atk_team = 1\<rparr>"
    by (simp add: compute_round_outcome_def attacker_points_def py_get_def defending_team_def demo_state_def)
  with h o show ?thesis by (simp add: demo_state_def)
qed

subsection \<open>Trick resolution on an unsorted template\<close>

text \<open>
  A play without a card of the led suit and without a trump card never beats the current
  best, and the play that the loop of \<open>winner\<close> returns is the first play or a later play
  that holds a card of the led suit or a trump card.
\<close>

lemma play_beats_off_suit:
  assumes "led_suit \<notin> set (map (effective_suit ts) cs)" "TRUMP \<notin> set (map (effective_suit ts) cs)"
  shows "play_beats ts cs incumbent led_components led_suit = Some False"
  using assms by (simp add: play_beats_def)

lemma winner_loop_selects:
  assumes "winner_loop ts led_comps led_suit best later = Some w"
  shows "w = best \<or> (w \<in> set later
            \<and> (led_suit \<in> set (map (effective_suit ts) (snd w))
               \<or> TRUMP \<in> set (map (effective_suit ts) (snd w))))"
  using assms
proof (induction later arbitrary: best)
  case Nil then show ?case by simp
next
  case (Cons pl later)
  obtain p cs where pl: "pl = (p, cs)" by (cases pl)
  from Cons.prems obtain b where b: "play_beats ts cs (snd best) led_comps led_suit = Some b"
    and rec: "winner_loop ts led_comps led_suit (if b then (p, cs) else best) later = Some w"
    by (auto simp: pl split: bind_splits)
  show ?case
  proof (cases b)
    case True
    with b have "led_suit \<in> set (map (effective_suit ts) cs) \<or> TRUMP \<in> set (map (effective_suit ts) cs)"
      using play_beats_off_suit[of led_suit ts cs "snd best" led_comps] by auto
    with Cons.IH[OF rec] True show ?thesis by (auto simp: pl)
  next
    case False
    with Cons.IH[OF rec] show ?thesis by auto
  qed
qed

text \<open>
  C3, evaluated where the code departs from it.  The lead of the example trick decomposes
  into the tractor of four before the tractor of six, and \<open>winner\<close> takes the slots in that
  order: player 1, whose four highest trumps and six next trumps are tractors, takes the
  trick.  With the template sorted largest-first, as the claim and the docstring of
  \<open>_play_beats\<close> have it, the six highest trumps are no tractor and the same play does
  not beat the lead.
\<close>

theorem winner_unsorted_template:
  "detect spades_two (lead_low4 @ lead_high6) = Some (MULTI, [lead_low4, lead_high6])
   \<and> Option.bind demo_trick winner = Some 1
   \<and> sort_key (\<lambda>c. - int (length c)) [lead_low4, lead_high6] = [lead_high6, lead_low4]
   \<and> play_beats spades_two trump_ten (lead_low4 @ lead_high6) [lead_high6, lead_low4]
        (Plain Hearts) = Some False
   \<and> play_beats spades_two trump_ten (lead_low4 @ lead_high6) [lead_low4, lead_high6]
        (Plain Hearts) = Some True"
  by code_simp

subsection \<open>Following a pair from a hand of adjacent pairs\<close>

text \<open>
  With a pair in hand that stands in no run (3-3 next to a 5 and a 6), the two broken
  singles are rejected.
\<close>

lemma free_pair_enforced:
  "is_valid_follow [mk_card Hearts R3 0, mk_card Hearts R5 0] kings_led
     (pair_of Hearts R3 @ [mk_card Hearts R5 0, mk_card Hearts R6 1]) spades_two
   = Some (False, Must_play_pairs 1 (Plain Hearts))"
  by code_simp

text \<open>
  C4, evaluated where the code departs from it.  Against a led pair of kings of hearts, a
  hand holding the pairs 3-3 and 4-4 of hearts may play the 3 and the 4 as two singles:
  the two pairs stand in a run, so none of them counts as a free pair and no pair is
  required.  Playing the pair 3-3 is accepted as well.
\<close>

theorem broken_pair_accepted:
  "CardCombo (pair_of Hearts RK) spades_two = Some kings_led
   \<and> required_follow_structure kings_led hearts_33_44 spades_two
       = Some \<lparr>req_tractors = 0, req_pair_cards = 0, req_singles = 2, req_total = 2,
               raw_avail_tractor_pairs = Some 2, raw_avail_free_pairs = Some 0,
               raw_hand_in_suit = Some hearts_33_44\<rparr>
   \<and> is_valid_follow [mk_card Hearts R3 0, mk_card Hearts R4 0] kings_led hearts_33_44 spades_two
       = Some (True, Follow_ok)
   \<and> is_valid_follow (pair_of Hearts R3) kings_led hearts_33_44 spades_two
       = Some (True, Follow_ok)"
  by code_simp

subsection \<open>The fallback follow against a long tractor\<close>

text \<open>
  C8, evaluated where the code departs from it.  Against a led tractor of three pairs, a
  hand holding two separate two-pair tractors is asked for three tractor pairs;
  \<open>build_valid_follow\<close> takes the first tractor and one pair of the second, and
  \<open>is_valid_follow\<close> rejects these six cards, which hold only two tractor pairs.
\<close>

theorem fallback_follow_rejected:
  "CardCombo (pair_of Hearts R3 @ pair_of Hearts R4 @ pair_of Hearts R5) spades_two
       = Some tractor_led
   \<and> is_valid_lead (cards tractor_led) spades_two
   \<and> length (cards tractor_led) \<le> length hearts_two_tractors
   \<and> build_valid_follow tractor_led hearts_two_tractors spades_two
       = Some (pair_of Hearts R6 @ pair_of Hearts R7 @ pair_of Hearts R9)
   \<and> is_valid_follow (pair_of Hearts R6 @ pair_of Hearts R7 @ pair_of Hearts R9)
         tractor_led hearts_two_tractors spades_two
       = Some (False, Must_play_tractor_pairs 3 (Plain Hearts))"
  by code_simp

subsection \<open>Decomposition partitions its input\<close>

lemma setdefault_append_mset:
  "mset (concat (map snd (setdefault_append k v g))) = add_mset v (mset (concat (map snd g)))"
  by (induction g) auto

lemma foldl_setdefault_mset:
  "mset (concat (map snd (foldl (\<lambda>g (k, v). setdefault_append k v g) g0 kvs)))
   = mset (map snd kvs) + mset (concat (map snd g0))"
  by (induction kvs arbitrary: g0) (auto simp: setdefault_append_mset)

lemma group_kv_mset: "mset (concat (map snd (group_kv kvs))) = mset (map snd kvs)"
  by (simp add: group_kv_def foldl_setdefault_mset)

lemma runs_concat: "concat (runs f xs) = xs"
  by (induction f xs rule: runs.induct) (auto split: list.splits)

lemma concat_filter_subset:
  "mset (concat (map g (filter P xs))) \<subseteq># mset (concat (map g xs))"
  by (induction xs) (auto intro: subset_mset.add_mono mset_subset_eq_add_right simp: subset_mset.add_increasing)

lemma concat_map_concat:
  "concat (map (\<lambda>r. concat (map f r)) rs) = concat (map f (concat rs))"
  by (induction rs) auto

lemma mset_concat_map_cong:
  assumes "mset xs = mset ys"
  shows "mset (concat (map f xs)) = mset (concat (map f ys))"
proof -
  have "mset (concat (map f zs)) = sum_mset (image_mset (\<lambda>z. mset (f z)) (mset zs))" for zs
    by (induction zs) auto
  then show ?thesis using assms by simp
qed

lemma tractor_runs_subset:
  "mset (concat (tractor_runs pl)) \<subseteq># mset (concat (map snd pl))"
proof -
  let ?rs = "runs fst (sort_key fst pl)"
  have "mset (concat (tractor_runs pl)) \<subseteq># mset (concat (map (\<lambda>r. concat (map snd r)) ?rs))"
    unfolding tractor_runs_def by (rule concat_filter_subset)
  also have "concat (map (\<lambda>r. concat (map snd r)) ?rs) = concat (map snd (sort_key fst pl))"
    by (simp add: concat_map_concat runs_concat)
  also have "mset (concat (map snd (sort_key fst pl))) = mset (concat (map snd pl))"
    by (rule mset_concat_map_cong) simp
  finally show ?thesis .
qed

lemma all_tractors_subset:
  "mset (concat (concat (map (\<lambda>(s, pl). tractor_runs pl) pbs)))
   \<subseteq># mset (concat (map snd (concat (map snd pbs))))"
proof (induction pbs)
  case Nil then show ?case by simp
next
  case (Cons a pbs)
  obtain s pl where a: "a = (s, pl)" by (cases a)
  show ?case using Cons tractor_runs_subset[of pl]
    by (simp add: a subset_mset.add_mono)
qed

lemma mset_take_subset: "mset (take n xs) \<subseteq># mset xs"
proof -
  have "mset xs = mset (take n xs) + mset (drop n xs)"
    by (metis append_take_drop_id mset_append)
  then show ?thesis by simp
qed

lemma pair_entries_subset:
  "mset (concat (map snd (map snd (concat (map (\<lambda>(k, cs).
       if 2 \<le> length cs then [(fst k, (snd k, take 2 cs))] else []) groups)))))
   \<subseteq># mset (concat (map snd groups))"
proof (induction groups)
  case Nil then show ?case by simp
next
  case (Cons a groups)
  obtain k cs where a: "a = (k, cs)" by (cases a)
  show ?case using Cons mset_take_subset[of 2 cs]
    by (auto simp: a intro: subset_mset.add_mono subset_mset.add_increasing)
qed

lemma tractors_in_groups:
  fixes groups :: "((esuit \<times> int) \<times> 'a list) list"
  defines "pbs \<equiv> group_kv (concat (map (\<lambda>(k, cs).
              if 2 \<le> length cs then [(fst k, (snd k, take 2 cs))] else []) groups))"
  shows "mset (concat (concat (map (\<lambda>(s, pl). tractor_runs pl) pbs)))
         \<subseteq># mset (concat (map snd groups))"
proof -
  let ?P2 = "concat (map (\<lambda>(k, cs).
              if 2 \<le> length cs then [(fst k, (snd k, take 2 cs))] else []) groups)"
  have "mset (concat (concat (map (\<lambda>(s, pl). tractor_runs pl) pbs)))
        \<subseteq># mset (concat (map snd (concat (map snd pbs))))"
    by (rule all_tractors_subset)
  also have "mset (concat (map snd (concat (map snd pbs)))) = mset (concat (map snd (map snd ?P2)))"
    by (rule mset_concat_map_cong) (simp add: pbs_def group_kv_mset)
  also have "\<dots> \<subseteq># mset (concat (map snd groups))"
    by (rule pair_entries_subset)
  finally show ?thesis .
qed

lemma distinct_of_mset_subset:
  "mset xs \<subseteq># mset ys \<Longrightarrow> distinct ys \<Longrightarrow> distinct xs"
proof -
  assume sub: "mset xs \<subseteq># mset ys" and d: "distinct ys"
  have "count (mset xs) a = (if a \<in> set xs then 1 else 0)" for a
  proof -
    have le: "count (mset xs) a \<le> count (mset ys) a"
      using sub by (rule mset_subset_eq_count)
    have "count (mset ys) a \<le> 1"
      using d by (simp add: distinct_count_atmost_1)
    with le have "count (mset xs) a \<le> 1" by simp
    moreover have "count (mset xs) a = 0 \<longleftrightarrow> a \<notin> set xs" by (rule count_mset_0_iff)
    ultimately show ?thesis by (cases "a \<in> set xs") (simp_all add: le_Suc_eq)
  qed
  then show "distinct xs" by (simp add: distinct_count_atmost_1)
qed

lemma pair_step_inv:
  assumes "concat (fst st) = snd st" "distinct (snd st)" "set (snd st) \<subseteq> A"
    and "distinct (snd g)" "set (snd g) \<subseteq> A"
  shows "concat (fst (pair_step st g)) = snd (pair_step st g)
       \<and> distinct (snd (pair_step st g)) \<and> set (snd (pair_step st g)) \<subseteq> A"
proof -
  let ?pair = "filter (\<lambda>c. c \<notin> set (snd st)) (take 2 (snd g))"
  have "distinct ?pair" using assms(4) by (simp add: distinct_take)
  moreover have "set ?pair \<subseteq> A" using assms(5) by (auto dest: in_set_takeD)
  moreover have "set ?pair \<inter> set (snd st) = {}" by auto
  ultimately show ?thesis using assms(1,2,3)
    by (auto simp: pair_step_def Let_def)
qed

lemma foldl_pair_step_inv:
  assumes "concat (fst st) = snd st" "distinct (snd st)" "set (snd st) \<subseteq> A"
    and "\<forall>g \<in> set gs. distinct (snd g) \<and> set (snd g) \<subseteq> A"
  shows "concat (fst (foldl pair_step st gs)) = snd (foldl pair_step st gs)
       \<and> distinct (snd (foldl pair_step st gs)) \<and> set (snd (foldl pair_step st gs)) \<subseteq> A"
  using assms
proof (induction gs arbitrary: st)
  case Nil then show ?case by simp
next
  case (Cons g gs)
  from Cons.prems(4) have dg: "distinct (snd g)" and sg: "set (snd g) \<subseteq> A"
    and rest: "\<forall>g \<in> set gs. distinct (snd g) \<and> set (snd g) \<subseteq> A"
    by simp_all
  note p = pair_step_inv[OF Cons.prems(1,2,3) dg sg]
  from Cons.IH[OF p[THEN conjunct1] p[THEN conjunct2, THEN conjunct1]
      p[THEN conjunct2, THEN conjunct2] rest]
  show ?case by simp
qed

lemma foldl_single_step_inv:
  assumes "concat (fst st) = snd st" "distinct (snd st)"
  shows "concat (fst (foldl single_step st xs)) = snd (foldl single_step st xs)
       \<and> distinct (snd (foldl single_step st xs))
       \<and> set (snd (foldl single_step st xs)) = set (snd st) \<union> set xs"
  using assms
proof (induction xs arbitrary: st)
  case Nil then show ?case by simp
next
  case (Cons x xs)
  have "concat (fst (single_step st x)) = snd (single_step st x)"
    "distinct (snd (single_step st x))"
    using Cons.prems by (auto simp: single_step_def)
  from Cons.IH[OF this] show ?case by (auto simp: single_step_def)
qed

lemma group_kv_member:
  assumes "distinct (map snd kvs)" "g \<in> set (group_kv kvs)"
  shows "distinct (snd g) \<and> set (snd g) \<subseteq> set (map snd kvs)"
proof -
  have m: "mset (concat (map snd (group_kv kvs))) = mset (map snd kvs)" by (rule group_kv_mset)
  then have d: "distinct (concat (map snd (group_kv kvs)))"
    using assms(1) by (metis mset_eq_imp_distinct_iff)
  from m have s: "set (concat (map snd (group_kv kvs))) = set (map snd kvs)"
    by (rule mset_eq_setD)
  from d assms(2) have "distinct (snd g)" by (auto simp: distinct_concat_iff)
  moreover from s assms(2) have "set (snd g) \<subseteq> set (map snd kvs)" by auto
  ultimately show ?thesis by simp
qed

lemma decompose_items_partition:
  assumes "distinct items"
  shows "mset (concat (decompose_items key items)) = mset items"
proof -
  define groups where "groups = group_kv (map (\<lambda>x. (key x, x)) items)"
  define pbs where "pbs = group_kv (concat (map (\<lambda>(k, cs).
              if 2 \<le> length cs then [(fst k, (snd k, take 2 cs))] else []) groups))"
  define tractors where "tractors = concat (map (\<lambda>(s, pair_list). tractor_runs pair_list) pbs)"
  define st2 where "st2 = foldl pair_step (tractors, concat tractors) groups"
  define st3 where "st3 = foldl single_step st2 (concat (map snd groups))"
  have res: "decompose_items key items = fst st3"
    by (simp add: decompose_items_def Let_def groups_def pbs_def tractors_def st2_def st3_def)
  have all: "mset (concat (map snd groups)) = mset items"
    by (simp add: groups_def group_kv_mset comp_def)
  then have dall: "distinct (concat (map snd groups))" using assms
    by (metis mset_eq_imp_distinct_iff)
  from all have sall: "set (concat (map snd groups)) = set items" by (rule mset_eq_setD)
  have tsub: "mset (concat tractors) \<subseteq># mset items"
    using tractors_in_groups[of groups] by (simp add: tractors_def pbs_def all)
  then have dt: "distinct (concat tractors)"
    using assms by (rule distinct_of_mset_subset)
  from tsub have st: "set (concat tractors) \<subseteq> set items"
    by (metis set_mset_mono set_mset_mset)
  have gm: "\<forall>g \<in> set groups. distinct (snd g) \<and> set (snd g) \<subseteq> set items"
    using group_kv_member[of "map (\<lambda>x. (key x, x)) items"] assms
    by (auto simp: groups_def comp_def)
  have "concat (fst (tractors, concat tractors)) = snd (tractors, concat tractors)"
    "distinct (snd (tractors, concat tractors))"
    "set (snd (tractors, concat tractors)) \<subseteq> set items"
    using dt st by simp_all
  note p = foldl_pair_step_inv[OF this gm]
  have i2: "concat (fst st2) = snd st2" "distinct (snd st2)" "set (snd st2) \<subseteq> set items"
    unfolding st2_def
    using p[THEN conjunct1] p[THEN conjunct2, THEN conjunct1] p[THEN conjunct2, THEN conjunct2]
    by blast+
  from foldl_single_step_inv[OF i2(1,2), of "concat (map snd groups)"]
  have i3: "concat (fst st3) = snd st3" "distinct (snd st3)"
    "set (snd st3) = set (snd st2) \<union> set (concat (map snd groups))"
    by (simp_all add: st3_def)
  from i3(3) i2(3) sall have "set (snd st3) = set items" by auto
  with i3(2) assms have "mset (snd st3) = mset items"
    by (simp add: set_eq_iff_mset_eq_distinct)
  then show ?thesis by (simp add: res i3(1))
qed

lemma order_of_wf: "wf_card c \<Longrightarrow> \<exists>v. order_of ts c = Some v"
  using trump_order_value[of c ts] RANK_VAL_wf[of "rank c"]
  by (auto simp: order_of_def wf_card_def is_trump_def is_joker_def split: if_splits)

lemma orders_of_wf:
  "\<forall>c \<in> set cs. wf_card c \<Longrightarrow> \<exists>vs. orders_of ts cs = Some vs \<and> length vs = length cs"
proof (induction cs)
  case Nil then show ?case by simp
next
  case (Cons c cs)
  then obtain vs where "orders_of ts cs = Some vs" "length vs = length cs" by auto
  moreover obtain v where "order_of ts c = Some v" using order_of_wf[of c ts] Cons.prems by auto
  ultimately show ?case by simp
qed

lemma decompose_partition:
  assumes "\<forall>c \<in> set cs. wf_card c"
  shows "\<exists>comps. decompose ts cs = Some comps \<and> mset (concat comps) = mset cs"
proof -
  from orders_of_wf[OF assms] obtain vs where vs: "orders_of ts cs = Some vs" by blast
  define D where "D = decompose_items (\<lambda>i. zip (map (effective_suit ts) cs) vs ! i) [0 ..< length cs]"
  have "mset (concat D) = mset [0 ..< length cs]"
    unfolding D_def by (rule decompose_items_partition) simp
  then have "mset (map (\<lambda>i. cs ! i) (concat D)) = mset (map (\<lambda>i. cs ! i) [0 ..< length cs])"
    by (metis mset_map)
  then have m: "mset (concat (map (map (\<lambda>i. cs ! i)) D)) = mset cs"
    by (simp add: map_concat map_nth)
  have "decompose ts cs = Some (if map (map (\<lambda>i. cs ! i)) D = [] then [cs] else map (map (\<lambda>i. cs ! i)) D)"
    by (simp add: decompose_def vs D_def Let_def)
  with m show ?thesis by auto
qed

lemma trump_order_wf: "wf_card c \<Longrightarrow> is_trump ts c \<Longrightarrow> \<exists>v. trump_order ts c = Some v"
  using trump_order_value[of c ts] by simp

lemma pair_test_wf: "wf_card a \<Longrightarrow> wf_card b \<Longrightarrow> \<exists>p. pair_test ts a b = Some p"
  using trump_order_wf[of a ts] trump_order_wf[of b ts]
  by (auto simp: pair_test_def)

lemma try_tractor_wf: "\<forall>c \<in> set cs. wf_card c \<Longrightarrow> \<exists>t. try_tractor ts cs = Some t"
  using orders_of_wf[of cs ts]
  by (auto simp: try_tractor_def group_by_order_def)

lemma detect_partition:
  assumes "\<forall>c \<in> set cs. wf_card c"
  shows "\<exists>t comps. detect ts cs = Some (t, comps) \<and> mset (concat comps) = mset cs"
proof -
  from decompose_partition[OF assms, of ts]
  have multi: "\<exists>t comps. detect_multi ts cs = Some (t, comps) \<and> mset (concat comps) = mset cs"
    by (auto simp: detect_multi_def)
  from try_tractor_wf[OF assms, of ts] obtain tt where tt: "try_tractor ts cs = Some tt" by blast
  have "\<exists>p. (case cs of [c0, c1] \<Rightarrow> pair_test ts c0 c1 | _ \<Rightarrow> Some False) = Some p"
    using assms pair_test_wf by (auto split: list.splits)
  then obtain p where p: "(case cs of [c0, c1] \<Rightarrow> pair_test ts c0 c1 | _ \<Rightarrow> Some False) = Some p"
    by blast
  show ?thesis
    using multi by (auto simp: detect_def tt p)
qed

text \<open>
  C6.  For every nonempty list of pairwise-distinct cards and every trump system, the
  combination is built, and its components partition the cards: the component sizes sum
  to the number of cards, no card occurs twice in the components, and the cards of the
  components are exactly the cards given.  The statement does not depend on the type the
  combination receives.
\<close>

theorem combo_components_partition:
  assumes "cs \<noteq> []" and "distinct cs" and "\<forall>c \<in> set cs. wf_card c"
  shows "\<exists>cmb. CardCombo cs ts = Some cmb \<and> cards cmb = cs
           \<and> sum_list (map length (components cmb)) = length cs
           \<and> distinct (concat (components cmb))
           \<and> set (concat (components cmb)) = set cs"
proof -
  from detect_partition[OF assms(3), of ts] obtain t comps where
    d: "detect ts cs = Some (t, comps)" and m: "mset (concat comps) = mset cs" by blast
  from m have "length (concat comps) = length cs" by (rule mset_eq_length)
  then have "sum_list (map length comps) = length cs" by (simp add: length_concat)
  moreover from m assms(2) have "distinct (concat comps)" by (metis mset_eq_imp_distinct_iff)
  moreover from m have "set (concat comps) = set cs" by (rule mset_eq_setD)
  ultimately show ?thesis by (simp add: CardCombo_def d)
qed

theorem combo_components_partition_witness:
  "[mk_card Hearts R3 0, mk_card Hearts R5 0, mk_card Hearts R3 1] \<noteq> []
   \<and> distinct [mk_card Hearts R3 0, mk_card Hearts R5 0, mk_card Hearts R3 1]
   \<and> wf_card (mk_card Hearts R3 0) \<and> wf_card (mk_card Hearts R5 0)
   \<and> wf_card (mk_card Hearts R3 1)
   \<and> CardCombo [mk_card Hearts R3 0, mk_card Hearts R5 0, mk_card Hearts R3 1] spades_two
       = Some \<lparr>cards = [mk_card Hearts R3 0, mk_card Hearts R5 0, mk_card Hearts R3 1],
               combo_trump = spades_two, ctype = MULTI,
               components = [[mk_card Hearts R3 0, mk_card Hearts R3 1], [mk_card Hearts R5 0]]\<rparr>
   \<and> sum_list (map length [[mk_card Hearts R3 0, mk_card Hearts R3 1], [mk_card Hearts R5 0]]) = 3"
proof -
  let ?cs = "[mk_card Hearts R3 0, mk_card Hearts R5 0, mk_card Hearts R3 1]"
  have h: "?cs \<noteq> []" "distinct ?cs" "\<forall>c \<in> set ?cs. wf_card c"
    by (simp_all add: mk_card_def wf_card_def SUITS_def RANKS_def)
  have e: "CardCombo ?cs spades_two
       = Some \<lparr>cards = ?cs, combo_trump = spades_two, ctype = MULTI,
               components = [[mk_card Hearts R3 0, mk_card Hearts R3 1], [mk_card Hearts R5 0]]\<rparr>"
    by code_simp
  from combo_components_partition[OF h, of spades_two] e h show ?thesis by simp
qed

subsection \<open>Ties\<close>

lemma same_face_funs:
  assumes "same_face a b"
  shows "is_trump ts a = is_trump ts b" "effective_suit ts a = effective_suit ts b"
    "trump_order ts a = trump_order ts b" "order_of ts a = order_of ts b"
    "card_order ts a = card_order ts b" "wf_card a = wf_card b"
  using assms
  by (simp_all add: same_face_def is_trump_def is_joker_def effective_suit_def trump_order_def
      order_of_def card_order_def wf_card_def is_big_joker_def is_small_joker_def)

lemma same_face_lists:
  assumes "list_all2 same_face xs ys"
  shows "map (effective_suit ts) xs = map (effective_suit ts) ys"
    "orders_of ts xs = orders_of ts ys" "card_orders ts xs = card_orders ts ys"
    "(\<forall>c \<in> set xs. wf_card c) = (\<forall>c \<in> set ys. wf_card c)"
  using assms
  by (induction rule: list_all2_induct) (simp_all add: same_face_funs)

lemma shape_setdefault:
  "shape g = shape g' \<Longrightarrow> shape (setdefault_append k v g) = shape (setdefault_append k v' g')"
proof (induction g arbitrary: g')
  case Nil then show ?case by (simp add: shape_def)
next
  case (Cons a g)
  then obtain a' g'' where g': "g' = a' # g''" by (cases g') (auto simp: shape_def)
  with Cons.prems have "shape g = shape g''" "fst a = fst a'" "length (snd a) = length (snd a')"
    by (auto simp: shape_def split: prod.splits)
  with Cons.IH[of g''] show ?case
    by (cases a; cases a') (auto simp: g' shape_def)
qed

lemma shape_foldl:
  assumes "length xs = length ys" "shape g = shape g'"
  shows "shape (foldl (\<lambda>g (k, v). setdefault_append k v g) g (zip vs xs))
       = shape (foldl (\<lambda>g (k, v). setdefault_append k v g) g' (zip vs ys))"
  using assms
proof (induction xs ys arbitrary: vs g g' rule: list_induct2)
  case Nil then show ?case by simp
next
  case (Cons x xs y ys)
  show ?case
  proof (cases vs)
    case Nil then show ?thesis using Cons.prems by simp
  next
    case (Cons v vs')
    then show ?thesis using Cons.IH[OF shape_setdefault[OF Cons.prems, of v x y], of vs']
      by simp
  qed
qed

lemma shape_group_kv:
  "length xs = length ys \<Longrightarrow> shape (group_kv (zip vs xs)) = shape (group_kv (zip vs ys))"
  unfolding group_kv_def by (rule shape_foldl) (simp_all add: shape_def)

lemma try_tractor_shape:
  "try_tractor ts cs =
     (if length cs < 4 \<or> length cs mod 2 \<noteq> 0 then Some False
      else do {
        vs \<leftarrow> orders_of ts cs;
        let sh = shape (group_kv (zip vs cs));
        if list_ex (\<lambda>(k, n). n \<noteq> 2) sh then Some False
        else Some (all_consecutive (sort (map fst sh)))
      })"
proof -
  have a: "list_ex (\<lambda>(k, n). n \<noteq> 2) (shape g) = list_ex (\<lambda>(k, v). length v \<noteq> 2) g" for g :: "(int \<times> card list) list"
    by (induction g) (auto simp: shape_def)
  have b: "map fst (shape g) = map fst g" for g :: "(int \<times> card list) list"
    by (induction g) (auto simp: shape_def)
  show ?thesis
    by (cases "orders_of ts cs") (simp_all add: try_tractor_def group_by_order_def a b Let_def)
qed

lemma try_tractor_same_face:
  assumes "list_all2 same_face xs ys"
  shows "try_tractor ts xs = try_tractor ts ys"
proof -
  have l: "length xs = length ys" using assms by (rule list_all2_lengthD)
  show ?thesis
  proof (cases "orders_of ts ys")
    case None
    then show ?thesis
      unfolding try_tractor_shape same_face_lists(2)[OF assms, of ts] l by simp
  next
    case (Some vs)
    have "shape (group_kv (zip vs xs)) = shape (group_kv (zip vs ys))"
      by (rule shape_group_kv[OF l])
    then show ?thesis
      unfolding try_tractor_shape same_face_lists(2)[OF assms, of ts] l Some by simp
  qed
qed

lemma detect_multi_type_same_face:
  assumes "list_all2 same_face xs ys"
  shows "map_option fst (detect_multi ts xs) = map_option fst (detect_multi ts ys)"
proof -
  have l: "length xs = length ys" using assms by (rule list_all2_lengthD)
  show ?thesis
  proof (cases "orders_of ts ys")
    case None
    then show ?thesis
      by (simp add: detect_multi_def decompose_def same_face_lists(2)[OF assms, of ts])
  next
    case (Some vs)
    define D where "D = decompose_items (\<lambda>i. zip (map (effective_suit ts) ys) vs ! i) [0 ..< length ys]"
    have dx: "decompose ts xs = Some (if D = [] then [xs] else map (map (\<lambda>i. xs ! i)) D)"
      by (simp add: decompose_def same_face_lists(1,2)[OF assms, of ts] Some l D_def Let_def)
    have dy: "decompose ts ys = Some (if D = [] then [ys] else map (map (\<lambda>i. ys ! i)) D)"
      by (simp add: decompose_def Some D_def Let_def)
    show ?thesis
      by (cases D) (simp_all add: detect_multi_def dx dy l)
  qed
qed

lemma pair_test_same_face:
  "same_face a a' \<Longrightarrow> same_face b b' \<Longrightarrow> pair_test ts a b = pair_test ts a' b'"
  by (simp add: pair_test_def same_face_funs[of a a'] same_face_funs[of b b'])
     (simp add: same_face_def)

lemma detect_type_same_face:
  assumes "list_all2 same_face xs ys"
  shows "map_option fst (detect ts xs) = map_option fst (detect ts ys)"
proof -
  have l: "length xs = length ys" using assms by (rule list_all2_lengthD)
  have p: "(case xs of [c0, c1] \<Rightarrow> pair_test ts c0 c1 | _ \<Rightarrow> Some False)
         = (case ys of [c0, c1] \<Rightarrow> pair_test ts c0 c1 | _ \<Rightarrow> Some False)"
    using assms pair_test_same_face
    by (auto simp: list_all2_Cons1 split: list.splits)
  show ?thesis
    unfolding detect_def l same_face_lists(1)[OF assms, of ts] p try_tractor_same_face[OF assms, of ts]
    using detect_multi_type_same_face[OF assms, of ts]
    by (auto split: bind_splits option.splits)
qed

lemma index_of_member: "x \<in> set xs \<Longrightarrow> \<exists>i. index_of x xs = Some i"
  by (induction xs) auto

lemma card_order_wf: "wf_card c \<Longrightarrow> \<exists>v. card_order ts c = Some v"
proof (cases "is_trump ts c")
  case True
  assume "wf_card c"
  with True trump_order_wf[of c ts] show ?thesis by (auto simp: card_order_def)
next
  case False
  assume w: "wf_card c"
  with False have "suit c \<in> set SUITS" "rank c \<in> set RANKS"
    by (auto simp: wf_card_def is_trump_def is_joker_def split: if_splits)
  with index_of_member[of "suit c" SUITS] RANK_VAL_wf[of "rank c"] False
  show ?thesis by (auto simp: card_order_def)
qed

lemma card_orders_wf:
  "\<forall>c \<in> set cs. wf_card c \<Longrightarrow> \<exists>ks. card_orders ts cs = Some ks \<and> length ks = length cs"
proof (induction cs)
  case Nil then show ?case by simp
next
  case (Cons c cs)
  then obtain ks where "card_orders ts cs = Some ks" "length ks = length cs" by auto
  moreover obtain v where "card_order ts c = Some v" using card_order_wf[of c ts] Cons.prems by auto
  ultimately show ?case by simp
qed

lemma same_keyed_zip:
  "list_all2 same_face xs ys \<Longrightarrow> list_all2 same_keyed (zip ks xs) (zip ks ys)"
proof (induction arbitrary: ks rule: list_all2_induct)
  case Nil then show ?case by simp
next
  case (Cons x xs y ys)
  then show ?case by (cases ks) (simp_all add: same_keyed_def)
qed

lemma foldl_max_same_keyed:
  assumes "list_all2 same_keyed zs zs'" "same_keyed x x'"
  shows "same_keyed (foldl (\<lambda>best y. if fst y > fst best then y else best) x zs)
                    (foldl (\<lambda>best y. if fst y > fst best then y else best) x' zs')"
  using assms
proof (induction arbitrary: x x' rule: list_all2_induct)
  case Nil then show ?case by simp
next
  case (Cons z zs z' zs')
  have "same_keyed (if fst z > fst x then z else x) (if fst z' > fst x' then z' else x')"
    using Cons.hyps(1) Cons.prems by (auto simp: same_keyed_def)
  from Cons.IH[OF this] show ?case by simp
qed

lemma foldl_max_member:
  "foldl (\<lambda>best y. if fst y > fst best then y else best) x zs \<in> insert x (set zs)"
  by (induction zs arbitrary: x) (auto split: if_splits)

lemma snd_in_zip: "p \<in> set (zip ks xs) \<Longrightarrow> snd p \<in> set xs"
  by (cases p) (auto dest: set_zip_rightD)

lemma top_card_same_face:
  assumes "list_all2 same_face xs ys" "xs \<noteq> []" "\<forall>c \<in> set xs. wf_card c"
  shows "\<exists>a b. top_card ts xs = Some a \<and> top_card ts ys = Some b \<and> same_face a b \<and> wf_card a"
proof -
  from card_orders_wf[OF assms(3), of ts] obtain ks where
    ks: "card_orders ts xs = Some ks" "length ks = length xs" by blast
  have ks': "card_orders ts ys = Some ks" using same_face_lists(3)[OF assms(1), of ts] ks by simp
  from assms(2) ks(2) obtain z zs where z: "zip ks xs = z # zs"
    by (cases xs; cases ks) auto
  from same_keyed_zip[OF assms(1), of ks] z obtain z' zs' where
    z': "zip ks ys = z' # zs'" and r: "same_keyed z z'" "list_all2 same_keyed zs zs'"
    by (auto simp: list_all2_Cons1)
  let ?m = "foldl (\<lambda>best y. if fst y > fst best then y else best) z zs"
  let ?m' = "foldl (\<lambda>best y. if fst y > fst best then y else best) z' zs'"
  have sk: "same_keyed ?m ?m'" using foldl_max_same_keyed[OF r(2) r(1)] .
  have "?m \<in> set (zip ks xs)" using foldl_max_member[of z zs] z by simp
  then have mem: "snd ?m \<in> set xs" by (rule snd_in_zip)
  have tx: "top_card ts xs = Some (snd ?m)" by (simp add: top_card_def ks z)
  have ty: "top_card ts ys = Some (snd ?m')" by (simp add: top_card_def ks' z')
  from sk have "same_face (snd ?m) (snd ?m')" by (simp add: same_keyed_def)
  moreover from mem assms(3) have "wf_card (snd ?m)" by blast
  ultimately show ?thesis using tx ty by blast
qed

lemma beats_same_face:
  assumes "same_face a b" "wf_card a"
  shows "beats ts a b led_suit = Some False"
proof -
  have w: "wf_card b" using same_face_funs(6)[OF assms(1)] assms(2) by simp
  note f = same_face_funs(1,2,3)[OF assms(1), of ts]
  show ?thesis
  proof (cases "is_trump ts a")
    case True
    with f have tb: "is_trump ts b" by simp
    from trump_order_wf[OF w tb] obtain v where tv: "trump_order ts b = Some v" by blast
    show ?thesis using True tb by (simp add: beats_def f tv)
  next
    case False
    with assms(2) have "rank a \<in> set RANKS"
      by (auto simp: wf_card_def is_trump_def is_joker_def split: if_splits)
    with RANK_VAL_wf[of "rank a"] assms(1) False f show ?thesis
      by (simp add: beats_def same_face_def)
  qed
qed

lemma detect_wf: "\<forall>c \<in> set cs. wf_card c \<Longrightarrow> \<exists>t comps. detect ts cs = Some (t, comps)"
  using detect_partition[of cs ts] by blast

lemma component_beats_same_face:
  assumes "list_all2 same_face c i" "\<forall>x \<in> set c. wf_card x"
  shows "component_beats ts c i l led_suit = Some False"
proof -
  have wi: "\<forall>x \<in> set i. wf_card x" using same_face_lists(4)[OF assms(1)] assms(2) by simp
  from detect_wf[OF assms(2), of ts] obtain t comps where dc: "detect ts c = Some (t, comps)" by blast
  from detect_wf[OF wi, of ts] obtain t' comps' where di: "detect ts i = Some (t', comps')" by blast
  from detect_type_same_face[OF assms(1), of ts] dc di have tt: "t' = t" by simp
  show ?thesis
  proof (cases c)
    case Nil
    with assms(1) have "i = []" by simp
    with Nil dc show ?thesis by (simp add: component_beats_def CardCombo_def)
  next
    case (Cons c0 cr)
    with assms(1) obtain i0 ir where i: "i = i0 # ir" and s0: "same_face c0 i0"
      by (auto simp: list_all2_Cons1)
    from Cons assms(2) have w0: "wf_card c0" by simp
    have b0: "beats ts c0 i0 led_suit = Some False" using beats_same_face[OF s0 w0] .
    from Cons have ne: "c \<noteq> []" by simp
    from top_card_same_face[OF assms(1) ne assms(2), of ts] obtain a b where
      tc: "top_card ts c = Some a" "top_card ts i = Some b" and sab: "same_face a b" "wf_card a"
      by blast
    have bt: "beats ts a b led_suit = Some False" using beats_same_face[OF sab] .
    have cs: "(case c of [] \<Rightarrow> None | x # _ \<Rightarrow> Some (effective_suit ts x))
                = Some (effective_suit ts c0)"
      by (simp add: Cons)
    have hb: "(case c of [] \<Rightarrow> None | x # _ \<Rightarrow>
                 (case i of [] \<Rightarrow> None | y # _ \<Rightarrow> beats ts x y led_suit)) = Some False"
      by (simp add: Cons i b0)
    show ?thesis
      by (simp add: component_beats_def CardCombo_def dc di tt tc bt cs hb)
  qed
qed

lemma insort_same_keyed:
  assumes "list_all2 same_keyed zs zs'" "same_keyed x x'"
  shows "list_all2 same_keyed (insort_key (\<lambda>kc. - fst kc) x zs) (insort_key (\<lambda>kc. - fst kc) x' zs')"
  using assms
  by (induction rule: list_all2_induct) (auto simp: same_keyed_def)

lemma sort_same_keyed:
  assumes "list_all2 same_keyed zs zs'"
  shows "list_all2 same_keyed (sort_key (\<lambda>kc. - fst kc) zs) (sort_key (\<lambda>kc. - fst kc) zs')"
  using assms
  by (induction rule: list_all2_induct) (simp_all add: insort_same_keyed)

lemma first_chunk_same_face:
  fixes ks :: "int list"
  assumes "list_all2 same_face xs ys"
  shows "list_all2 same_face (take n (map snd (sort_key (\<lambda>kc. - fst kc) (zip ks xs))))
                             (take n (map snd (sort_key (\<lambda>kc. - fst kc) (zip ks ys))))"
proof -
  have "list_all2 same_keyed (sort_key (\<lambda>kc. - fst kc) (zip ks xs)) (sort_key (\<lambda>kc. - fst kc) (zip ks ys))"
    using same_keyed_zip[OF assms] by (rule sort_same_keyed)
  then have "list_all2 same_face (map snd (sort_key (\<lambda>kc. - fst kc) (zip ks xs)))
                                 (map snd (sort_key (\<lambda>kc. - fst kc) (zip ks ys)))"
    unfolding list_all2_map1 list_all2_map2
    by (rule list_all2_mono) (simp add: same_keyed_def)
  then show ?thesis by (rule list_all2_takeI)
qed

lemma first_chunk_subset:
  "set (take n (map snd (sort_key f (zip ks xs)))) \<subseteq> set xs"
proof -
  have "set (take n (map snd (sort_key f (zip ks xs)))) \<subseteq> snd ` set (zip ks xs)"
    using set_take_subset[of n "map snd (sort_key f (zip ks xs))"] by simp
  also have "\<dots> \<subseteq> set xs" by (auto dest: set_zip_rightD)
  finally show ?thesis .
qed

lemma foldl_remove1_subset: "set (foldl (\<lambda>r c. remove1 c r) xs cs) \<subseteq> set xs"
proof (induction cs arbitrary: xs)
  case Nil then show ?case by simp
next
  case (Cons c cs)
  have "set (foldl (\<lambda>r c. remove1 c r) (remove1 c xs) cs) \<subseteq> set (remove1 c xs)" by (rule Cons.IH)
  also have "\<dots> \<subseteq> set xs" by (rule set_remove1_subset)
  finally show ?case by simp
qed

lemma match_components_wf:
  "\<forall>c \<in> set cs. wf_card c \<Longrightarrow> \<exists>comps. match_components ts cs sizes = Some comps"
proof (induction sizes arbitrary: cs)
  case Nil then show ?case by simp
next
  case (Cons sz sizes)
  from card_orders_wf[OF Cons.prems, of ts] obtain ks where ks: "card_orders ts cs = Some ks" by blast
  let ?chunk = "take sz (map snd (sort_key (\<lambda>kc. - fst kc) (zip ks cs)))"
  have "\<forall>c \<in> set (foldl (\<lambda>r c. remove1 c r) cs ?chunk). wf_card c"
    using foldl_remove1_subset[of cs ?chunk] Cons.prems by blast
  from Cons.IH[OF this] show ?case by (auto simp: ks Let_def)
qed

lemma match_components_first:
  assumes "match_components ts cs (sz # sizes) = Some comps" "card_orders ts cs = Some ks"
  shows "\<exists>rest. comps = take sz (map snd (sort_key (\<lambda>kc. - fst kc) (zip ks cs))) # rest"
  using assms by (auto simp: Let_def split: bind_splits)

lemma play_beats_same_face:
  assumes "list_all2 same_face chal inc" "\<forall>c \<in> set chal. wf_card c" "led_components \<noteq> []"
  shows "play_beats ts chal inc led_components led_suit = Some False"
proof -
  have wi: "\<forall>c \<in> set inc. wf_card c" using same_face_lists(4)[OF assms(1)] assms(2) by simp
  from assms(3) obtain l ls where lc: "led_components = l # ls" by (cases led_components) auto
  from card_orders_wf[OF assms(2), of ts] obtain ks where ks: "card_orders ts chal = Some ks" by blast
  have ks': "card_orders ts inc = Some ks" using same_face_lists(3)[OF assms(1), of ts] ks by simp
  from match_components_wf[OF assms(2), of ts "map length led_components"] obtain cc where
    mc: "match_components ts chal (map length led_components) = Some cc" by blast
  from match_components_wf[OF wi, of ts "map length led_components"] obtain ic where
    mi: "match_components ts inc (map length led_components) = Some ic" by blast
  let ?c1 = "take (length l) (map snd (sort_key (\<lambda>kc. - fst kc) (zip ks chal)))"
  let ?i1 = "take (length l) (map snd (sort_key (\<lambda>kc. - fst kc) (zip ks inc)))"
  from match_components_first[OF mc[unfolded lc list.map] ks] obtain cr where cc: "cc = ?c1 # cr" by blast
  from match_components_first[OF mi[unfolded lc list.map] ks'] obtain ir where ic: "ic = ?i1 # ir" by blast
  have rel: "list_all2 same_face ?c1 ?i1" using first_chunk_same_face[OF assms(1)] .
  have wf1: "\<forall>x \<in> set ?c1. wf_card x" using first_chunk_subset[of "length l" _ ks chal] assms(2) by blast
  have cb: "component_beats ts ?c1 ?i1 l led_suit = Some False"
    using component_beats_same_face[OF rel wf1] .
  show ?thesis
    by (simp add: play_beats_def mc mi Let_def) (simp add: cc ic lc cb)
qed

text \<open>
  C10.  Two well-formed cards of equal strength in one effective-suit group (two trump
  cards of equal \<open>trump_order\<close>, or two non-trump cards of one suit and rank) do not beat
  each other, whatever the led suit.  And a later play that agrees card by card in suit and
  rank with the current best play never beats it, whatever the lead's components: the loop
  of \<open>winner\<close> keeps the earlier play as the best.
\<close>

theorem equal_strength_never_beats:
  assumes "wf_card a" and "wf_card b"
    and "(is_trump ts a \<and> is_trump ts b \<and> trump_order ts a = trump_order ts b)
         \<or> (\<not> is_trump ts a \<and> \<not> is_trump ts b \<and> suit a = suit b \<and> rank a = rank b)"
    and "list_all2 same_face later_cards best_cards"
    and "\<forall>c \<in> set later_cards. wf_card c"
    and "led_comps \<noteq> []"
  shows "beats ts a b led_suit = Some False \<and> beats ts b a led_suit = Some False
       \<and> play_beats ts later_cards best_cards led_comps led_suit = Some False
       \<and> winner_loop ts led_comps led_suit (best_player, best_cards)
            ((later_player, later_cards) # rest)
          = winner_loop ts led_comps led_suit (best_player, best_cards) rest"
proof -
  have r: "\<not> is_trump ts c \<Longrightarrow> wf_card c \<Longrightarrow> \<exists>v. RANK_VAL (rank c) = Some v" for c
    using RANK_VAL_wf[of "rank c"]
    by (auto simp: wf_card_def is_trump_def is_joker_def split: if_splits)
  from assms(3) have b: "beats ts a b led_suit = Some False \<and> beats ts b a led_suit = Some False"
  proof
    assume t: "is_trump ts a \<and> is_trump ts b \<and> trump_order ts a = trump_order ts b"
    with trump_order_wf[of a ts] trump_order_wf[of b ts] assms(1,2) show ?thesis
      by (auto simp: beats_def effective_suit_def)
  next
    assume n: "\<not> is_trump ts a \<and> \<not> is_trump ts b \<and> suit a = suit b \<and> rank a = rank b"
    with r[of a] r[of b] assms(1,2) show ?thesis
      by (auto simp: beats_def effective_suit_def)
  qed
  have p: "play_beats ts later_cards best_cards led_comps led_suit = Some False"
    using assms(4,5,6) by (rule play_beats_same_face)
  from b p show ?thesis by simp
qed

theorem equal_strength_never_beats_witness:
  "wf_card (mk_card Hearts RK 0) \<and> wf_card (mk_card Hearts RK 1)
   \<and> \<not> is_trump spades_two (mk_card Hearts RK 0) \<and> \<not> is_trump spades_two (mk_card Hearts RK 1)
   \<and> list_all2 same_face [mk_card Hearts RK 1] [mk_card Hearts RK 0]
   \<and> beats spades_two (mk_card Hearts RK 1) (mk_card Hearts RK 0) (Plain Hearts) = Some False
   \<and> beats spades_two (mk_card Hearts RK 0) (mk_card Hearts RK 1) (Plain Hearts) = Some False
   \<and> play_beats spades_two [mk_card Hearts RK 1] [mk_card Hearts RK 0]
        [[mk_card Hearts RK 0]] (Plain Hearts) = Some False
   \<and> winner_loop spades_two [[mk_card Hearts RK 0]] (Plain Hearts) (0, [mk_card Hearts RK 0])
        [(1, [mk_card Hearts RK 1])] = Some (0, [mk_card Hearts RK 0])"
proof -
  let ?a = "mk_card Hearts RK 1" and ?b = "mk_card Hearts RK 0"
  have h: "wf_card ?a" "wf_card ?b"
    "(is_trump spades_two ?a \<and> is_trump spades_two ?b
        \<and> trump_order spades_two ?a = trump_order spades_two ?b)
     \<or> (\<not> is_trump spades_two ?a \<and> \<not> is_trump spades_two ?b
        \<and> suit ?a = suit ?b \<and> rank ?a = rank ?b)"
    "list_all2 same_face [?a] [?b]" "\<forall>c \<in> set [?a]. wf_card c"
    "[[?b]] \<noteq> []"
    by (simp_all add: wf_card_def mk_card_def SUITS_def RANKS_def is_trump_def is_joker_def
        spades_two_def same_face_def)
  have n: "\<not> is_trump spades_two ?a" "\<not> is_trump spades_two ?b"
    by (simp_all add: mk_card_def is_trump_def is_joker_def spades_two_def)
  from equal_strength_never_beats[OF h, of "Plain Hearts" 0 1 "[]"] h n
  show ?thesis by simp
qed

end
